theory Spec2Isabelle
  imports Main
begin

section \<open>TTL cache of cachetools (src/cachetools/ttl.py)\<close>

text \<open>
  The Python exceptions the module can raise: \<open>KeyError\<close> (a missing key, an empty
  cache), \<open>ValueError\<close> (a value larger than the cache) and \<open>AttributeError\<close>
  (reading \<open>_Timer.__time\<close> before any \<open>__enter__\<close> has assigned it).
\<close>

datatype error = KeyError | ValueError | AttributeError

type_synonym 'a result = "error + 'a"

subsection \<open>collections.OrderedDict\<close>

text \<open>
  An ordered dictionary is an association list in iteration order. \<open>__order\<close> maps
  every key to \<open>None\<close>, so it is the list of its keys. Deleting or moving a missing
  key raises \<open>KeyError\<close> (\<open>None\<close> here); assigning to a key already present keeps
  its position, assigning to a new key appends it.
\<close>

definition od_get :: "'k \<Rightarrow> ('k \<times> 'a) list \<Rightarrow> 'a option" where
  "od_get key xs = map_of xs key"

definition od_del :: "'k \<Rightarrow> ('k \<times> 'a) list \<Rightarrow> ('k \<times> 'a) list option" where
  "od_del key xs =
     (if key \<in> fst ` set xs then Some (filter (\<lambda>p. fst p \<noteq> key) xs) else None)"

definition od_set :: "'k \<Rightarrow> 'a \<Rightarrow> ('k \<times> 'a) list \<Rightarrow> ('k \<times> 'a) list" where
  "od_set key v xs =
     (if key \<in> fst ` set xs then map (\<lambda>p. if fst p = key then (key, v) else p) xs
      else xs @ [(key, v)])"

definition keys_del :: "'k \<Rightarrow> 'k list \<Rightarrow> 'k list option" where
  "keys_del key ks = (if key \<in> set ks then Some (filter (\<lambda>k. k \<noteq> key) ks) else None)"

definition keys_set :: "'k \<Rightarrow> 'k list \<Rightarrow> 'k list" where
  "keys_set key ks = (if key \<in> set ks then ks else ks @ [key])"

definition move_to_end :: "'k \<Rightarrow> 'k list \<Rightarrow> 'k list option" where
  "move_to_end key ks =
     (if key \<in> set ks then Some (filter (\<lambda>k. k \<noteq> key) ks @ [key]) else None)"

subsection \<open>class _Timer\<close>

text \<open>
  \<open>t_timer\<close> is the wrapped callable \<open>self.__timer\<close>: a clock with a state of its
  own (\<open>t_clock\<close>), which a call reads and may advance. \<open>t_nesting\<close> is
  \<open>self.__nesting\<close>, \<open>t_time\<close> is \<open>self.__time\<close>, unset until the first
  \<open>__enter__\<close>.
\<close>

record 'c timer_state =
  t_timer :: "'c \<Rightarrow> int \<times> 'c"
  t_clock :: 'c
  t_nesting :: int
  t_time :: "int option"

definition timer_init :: "('c \<Rightarrow> int \<times> 'c) \<Rightarrow> 'c \<Rightarrow> 'c timer_state" where
  "timer_init f w = \<lparr>t_timer = f, t_clock = w, t_nesting = 0, t_time = None\<rparr>"

definition timer_call :: "'c timer_state \<Rightarrow> int result \<times> 'c timer_state" where
  "timer_call s =
     (if t_nesting s = 0 then
        (case t_timer s (t_clock s) of (t, w) \<Rightarrow> (Inr t, s\<lparr>t_clock := w\<rparr>))
      else
        (case t_time s of
           None \<Rightarrow> (Inl AttributeError, s)
         | Some t \<Rightarrow> (Inr t, s)))"

definition timer_enter :: "'c timer_state \<Rightarrow> int result \<times> 'c timer_state" where
  "timer_enter s =
     (if t_nesting s = 0 then
        (case t_timer s (t_clock s) of
           (t, w) \<Rightarrow> (Inr t, s\<lparr>t_clock := w, t_time := Some t, t_nesting := t_nesting s + 1\<rparr>))
      else
        (case t_time s of
           None \<Rightarrow> (Inl AttributeError, s)
         | Some t \<Rightarrow> (Inr t, s\<lparr>t_nesting := t_nesting s + 1\<rparr>)))"

definition timer_exit :: "'c timer_state \<Rightarrow> 'c timer_state" where
  "timer_exit s = s\<lparr>t_nesting := t_nesting s - 1\<rparr>"

subsection \<open>class TTLCache: state\<close>

text \<open>
  \<open>expiry_info\<close>, \<open>order\<close>, \<open>timer\<close> and \<open>ttl\<close> are the fields of
  \<open>TTLCache\<close>. The base class \<open>Cache\<close> (cache.py) is not part of the sources at
  hand; its fields \<open>data\<close> (key to value and accounted size), \<open>currsize\<close>,
  \<open>maxsize\<close> and \<open>getsizeof\<close> follow the Bounded Store of the specification.
\<close>

record ('k, 'v, 'c) ttlcache =
  data :: "'k \<rightharpoonup> 'v \<times> int"
  currsize :: int
  maxsize :: int
  getsizeof :: "'v \<Rightarrow> int"
  expiry_info :: "('k \<times> int) list"
  order :: "'k list"
  timer :: "'c timer_state"
  ttl :: int

definition init :: "int \<Rightarrow> int \<Rightarrow> ('c \<Rightarrow> int \<times> 'c) \<Rightarrow> 'c \<Rightarrow> ('v \<Rightarrow> int) \<Rightarrow> ('k, 'v, 'c) ttlcache" where
  "init m d f w sz =
     \<lparr>data = Map.empty, currsize = 0, maxsize = m, getsizeof = sz,
      expiry_info = [], order = [], timer = timer_init f w, ttl = d\<rparr>"

text \<open>
  \<open>with self.__timer as time: body\<close>. When \<open>__enter__\<close> raises, the body does not
  run; otherwise \<open>__exit__\<close> runs whether the body returns or raises.
\<close>

definition with_timer ::
  "(int \<Rightarrow> ('k, 'v, 'c) ttlcache \<Rightarrow> 'a result \<times> ('k, 'v, 'c) ttlcache) \<Rightarrow>
   ('k, 'v, 'c) ttlcache \<Rightarrow> 'a result \<times> ('k, 'v, 'c) ttlcache" where
  "with_timer body c =
     (case timer_enter (timer c) of
        (Inl e, tm) \<Rightarrow> (Inl e, c\<lparr>timer := tm\<rparr>)
      | (Inr time, tm) \<Rightarrow>
          (case body time (c\<lparr>timer := tm\<rparr>) of
             (r, c') \<Rightarrow> (r, c'\<lparr>timer := timer_exit (timer c')\<rparr>)))"

subsection \<open>class Cache (the Bounded Store)\<close>

text \<open>
  Modelled from the spec: \<open>Cache.__getitem__\<close>, \<open>Cache.__missing__\<close> and
  \<open>Cache.__delitem__\<close> of cache.py, which is not among the sources. Section 4.4:
  \<open>get(key) -> value or NotFound\<close> and \<open>delete(key)\<close>, with the accounted size
  kept in step; the missing-key handling raises the not-found error.
\<close>

definition missing :: "'k \<Rightarrow> ('k, 'v, 'c) ttlcache \<Rightarrow> 'v result \<times> ('k, 'v, 'c) ttlcache" where
  "missing key c = (Inl KeyError, c)"

definition cache_getitem :: "'k \<Rightarrow> ('k, 'v, 'c) ttlcache \<Rightarrow> 'v result \<times> ('k, 'v, 'c) ttlcache" where
  "cache_getitem key c =
     (case data c key of
        None \<Rightarrow> missing key c
      | Some (v, sz) \<Rightarrow> (Inr v, c))"

definition cache_delitem :: "'k \<Rightarrow> ('k, 'v, 'c) ttlcache \<Rightarrow> unit result \<times> ('k, 'v, 'c) ttlcache" where
  "cache_delitem key c =
     (case data c key of
        None \<Rightarrow> (Inl KeyError, c)
      | Some (v, sz) \<Rightarrow>
          (Inr (), c\<lparr>data := (data c)(key := None), currsize := currsize c - sz\<rparr>))"

subsection \<open>class TTLCache: operations\<close>

text \<open>\<open>__getexpiry\<close>: the recorded expiry time, and the key moves to the end of \<open>__order\<close>.\<close>

definition getexpiry :: "'k \<Rightarrow> ('k, 'v, 'c) ttlcache \<Rightarrow> int result \<times> ('k, 'v, 'c) ttlcache" where
  "getexpiry key c =
     (case od_get key (expiry_info c) of
        None \<Rightarrow> (Inl KeyError, c)
      | Some expiry_time \<Rightarrow>
          (case move_to_end key (order c) of
             None \<Rightarrow> (Inl KeyError, c)
           | Some ks \<Rightarrow> (Inr expiry_time, c\<lparr>order := ks\<rparr>)))"

definition contains :: "'k \<Rightarrow> ('k, 'v, 'c) ttlcache \<Rightarrow> bool result \<times> ('k, 'v, 'c) ttlcache" where
  "contains key c =
     (case od_get key (expiry_info c) of
        None \<Rightarrow> (Inr False, c)
      | Some expiry_time \<Rightarrow>
          (case timer_call (timer c) of
             (Inl e, tm) \<Rightarrow> (Inl e, c\<lparr>timer := tm\<rparr>)
           | (Inr now, tm) \<Rightarrow> (Inr (expiry_time \<ge> now), c\<lparr>timer := tm\<rparr>)))"

definition getitem :: "'k \<Rightarrow> ('k, 'v, 'c) ttlcache \<Rightarrow> 'v result \<times> ('k, 'v, 'c) ttlcache" where
  "getitem key c =
     (case getexpiry key c of
        (Inl e, c1) \<Rightarrow> (if e = KeyError then cache_getitem key c1 else (Inl e, c1))
      | (Inr expiry_time, c1) \<Rightarrow>
          (case timer_call (timer c1) of
             (Inl e, tm) \<Rightarrow> (Inl e, c1\<lparr>timer := tm\<rparr>)
           | (Inr now, tm) \<Rightarrow>
               (if expiry_time < now then missing key (c1\<lparr>timer := tm\<rparr>)
                else cache_getitem key (c1\<lparr>timer := tm\<rparr>))))"

definition delitem :: "'k \<Rightarrow> ('k, 'v, 'c) ttlcache \<Rightarrow> unit result \<times> ('k, 'v, 'c) ttlcache" where
  "delitem key c =
     (case cache_delitem key c of
        (Inl e, c1) \<Rightarrow> (Inl e, c1)
      | (Inr u, c1) \<Rightarrow>
          (case keys_del key (order c1) of
             None \<Rightarrow> (Inl KeyError, c1)
           | Some ks \<Rightarrow>
               (case od_get key (expiry_info c1) of
                  None \<Rightarrow> (Inl KeyError, c1\<lparr>order := ks\<rparr>)
                | Some expiry_time \<Rightarrow>
                    (case timer_call (timer c1) of
                       (Inl e, tm) \<Rightarrow>
                         (Inl e, c1\<lparr>order := ks,
                            expiry_info := filter (\<lambda>p. fst p \<noteq> key) (expiry_info c1),
                            timer := tm\<rparr>)
                     | (Inr now, tm) \<Rightarrow>
                         (if expiry_time < now then Inl KeyError else Inr (),
                          c1\<lparr>order := ks,
                            expiry_info := filter (\<lambda>p. fst p \<noteq> key) (expiry_info c1),
                            timer := tm\<rparr>)))))"

text \<open>
  The body of the loop of \<open>expire\<close>: the key leaves the store, then
  \<open>__expiry_info\<close>, then \<open>__order\<close>; the first missing key raises.
\<close>

definition expire_body :: "'k \<Rightarrow> ('k, 'v, 'c) ttlcache \<Rightarrow> unit result \<times> ('k, 'v, 'c) ttlcache" where
  "expire_body key c =
     (case cache_delitem key c of
        (Inl e, c1) \<Rightarrow> (Inl e, c1)
      | (Inr u, c1) \<Rightarrow>
          (case od_del key (expiry_info c1) of
             None \<Rightarrow> (Inl KeyError, c1)
           | Some ei \<Rightarrow>
               (case keys_del key (order c1) of
                  None \<Rightarrow> (Inl KeyError, c1\<lparr>expiry_info := ei\<rparr>)
                | Some ks \<Rightarrow> (Inr (), c1\<lparr>expiry_info := ei, order := ks\<rparr>))))"

text \<open>
  The loop of \<open>expire\<close> over the copy of \<open>__expiry_info\<close>, front first; it stops at
  the first entry with \<open>expiry_time >= time\<close>.
\<close>

fun expire_loop ::
  "int \<Rightarrow> ('k \<times> int) list \<Rightarrow> ('k, 'v, 'c) ttlcache \<Rightarrow> unit result \<times> ('k, 'v, 'c) ttlcache" where
  "expire_loop time [] c = (Inr (), c)"
| "expire_loop time ((key, expiry_time) # rest) c =
     (if expiry_time \<ge> time then (Inr (), c)
      else
        (case expire_body key c of
           (Inl e, c1) \<Rightarrow> (Inl e, c1)
         | (Inr u, c1) \<Rightarrow> expire_loop time rest c1))"

definition expire :: "int option \<Rightarrow> ('k, 'v, 'c) ttlcache \<Rightarrow> unit result \<times> ('k, 'v, 'c) ttlcache" where
  "expire time_arg c =
     (case time_arg of
        Some time \<Rightarrow> expire_loop time (expiry_info c) c
      | None \<Rightarrow>
          (case timer_call (timer c) of
             (Inl e, tm) \<Rightarrow> (Inl e, c\<lparr>timer := tm\<rparr>)
           | (Inr time, tm) \<Rightarrow> expire_loop time (expiry_info c) (c\<lparr>timer := tm\<rparr>)))"

text \<open>
  Modelled from the spec: \<open>Cache.pop\<close>, inherited by \<open>TTLCache.pop\<close> and not among
  the sources. Section 4.5: pop reads the value through the get path and then performs a
  full delete, returning the value.
\<close>

definition cache_pop :: "'k \<Rightarrow> ('k, 'v, 'c) ttlcache \<Rightarrow> 'v result \<times> ('k, 'v, 'c) ttlcache" where
  "cache_pop key c =
     (case getitem key c of
        (Inl e, c1) \<Rightarrow> (Inl e, c1)
      | (Inr v, c1) \<Rightarrow>
          (case delitem key c1 of
             (Inl e, c2) \<Rightarrow> (Inl e, c2)
           | (Inr u, c2) \<Rightarrow> (Inr v, c2)))"

definition pop :: "'k \<Rightarrow> ('k, 'v, 'c) ttlcache \<Rightarrow> 'v result \<times> ('k, 'v, 'c) ttlcache" where
  "pop key c = with_timer (\<lambda>time c1. cache_pop key c1) c"

text \<open>
  \<open>popitem\<close>: inside the scope of the timer, purge, take the first key of \<open>__order\<close>
  (an empty \<open>__order\<close> raises \<open>KeyError\<close>) and pop it.
\<close>

definition popitem_body ::
  "int \<Rightarrow> ('k, 'v, 'c) ttlcache \<Rightarrow> ('k \<times> 'v) result \<times> ('k, 'v, 'c) ttlcache" where
  "popitem_body time c0 =
     (case expire (Some time) c0 of
        (Inl e, c1) \<Rightarrow> (Inl e, c1)
      | (Inr u, c1) \<Rightarrow>
          (case order c1 of
             [] \<Rightarrow> (Inl KeyError, c1)
           | key # ks \<Rightarrow>
               (case pop key c1 of
                  (Inl e, c2) \<Rightarrow> (Inl e, c2)
                | (Inr v, c2) \<Rightarrow> (Inr (key, v), c2))))"

definition popitem :: "('k, 'v, 'c) ttlcache \<Rightarrow> ('k \<times> 'v) result \<times> ('k, 'v, 'c) ttlcache" where
  "popitem c = with_timer popitem_body c"

subsection \<open>A successful popitem shortens the access order\<close>

text \<open>
  The two loops that call \<open>popitem\<close> until it raises (the eviction loop of the store and
  \<open>clear\<close>) end because every successful \<open>popitem\<close> removes a key of \<open>__order\<close>.
\<close>

lemma cache_delitem_order:
  "cache_delitem key c = (r, c') \<Longrightarrow> order c' = order c \<and> expiry_info c' = expiry_info c \<and> timer c' = timer c"
  by (auto simp: cache_delitem_def split: option.splits)

lemma length_filter_neq_less: "key \<in> set ks \<Longrightarrow> length (filter (\<lambda>k. k \<noteq> key) ks) < length ks"
  by (induction ks) (auto simp: less_Suc_eq_le)

lemma expire_body_order_len:
  "expire_body key c = (r, c') \<Longrightarrow> length (order c') \<le> length (order c)"
  by (auto simp: expire_body_def keys_del_def split: prod.splits sum.splits option.splits if_splits
      dest!: cache_delitem_order)

lemma expire_loop_order_len:
  "expire_loop time xs c = (r, c') \<Longrightarrow> length (order c') \<le> length (order c)"
proof (induction xs arbitrary: c)
  case Nil
  then show ?case by simp
next
  case (Cons x xs)
  obtain key e where x: "x = (key, e)" by (cases x)
  show ?case
  proof (cases "e \<ge> time")
    case True
    with Cons.prems x show ?thesis by simp
  next
    case False
    obtain r1 c1 where b: "expire_body key c = (r1, c1)" by (cases "expire_body key c")
    have l1: "length (order c1) \<le> length (order c)" using b by (rule expire_body_order_len)
    show ?thesis
    proof (cases r1)
      case (Inl err)
      with Cons.prems x False b l1 show ?thesis by simp
    next
      case (Inr u)
      with Cons.prems x False b have "expire_loop time xs c1 = (r, c')" by simp
      from Cons.IH[OF this] l1 show ?thesis by simp
    qed
  qed
qed

lemma getexpiry_order_len:
  "getexpiry key c = (r, c') \<Longrightarrow> length (order c') \<le> length (order c)"
  by (auto simp: getexpiry_def move_to_end_def split: option.splits if_splits
      dest: length_filter_neq_less)

lemma getitem_order_len:
  "getitem key c = (r, c') \<Longrightarrow> length (order c') \<le> length (order c)"
  by (auto simp: getitem_def cache_getitem_def missing_def
      split: prod.splits sum.splits option.splits if_splits dest!: getexpiry_order_len)

lemma delitem_order_len:
  "delitem key c = (Inr u, c') \<Longrightarrow> length (order c') < length (order c)"
  by (auto simp: delitem_def keys_del_def
      split: prod.splits sum.splits option.splits if_splits
      dest!: cache_delitem_order dest: length_filter_neq_less)

lemma cache_pop_order_len:
  "cache_pop key c = (Inr v, c') \<Longrightarrow> length (order c') < length (order c)"
  by (auto simp: cache_pop_def split: prod.splits sum.splits
      dest!: getitem_order_len delitem_order_len)

lemma pop_order_len:
  "pop key c = (Inr v, c') \<Longrightarrow> length (order c') < length (order c)"
  by (auto simp: pop_def with_timer_def split: prod.splits sum.splits
      dest!: cache_pop_order_len)

lemma popitem_order_len:
  "popitem c = (Inr kv, c') \<Longrightarrow> length (order c') < length (order c)"
  by (auto simp: popitem_def popitem_body_def with_timer_def expire_def
      split: prod.splits sum.splits list.splits
      dest!: pop_order_len expire_loop_order_len)

subsection \<open>Writing through the Bounded Store\<close>

text \<open>
  Modelled from the spec: \<open>Cache.__setitem__\<close> of cache.py, which is not among the
  sources. Section 4.4: a value whose size alone exceeds \<open>maxsize\<close> raises; otherwise
  entries are evicted, each by \<open>self.popitem()\<close> (the least recently used key of the
  Access Order Index), until the new value fits the budget; a write that replaces a value
  by one no larger is within budget already and evicts nothing. Then the value is stored and
  the accounted size adjusted.
\<close>

function evict_loop ::
  "int \<Rightarrow> ('k, 'v, 'c) ttlcache \<Rightarrow> unit result \<times> ('k, 'v, 'c) ttlcache" where
  "evict_loop sz c =
     (if currsize c + sz > maxsize c then
        (case popitem c of
           (Inl e, c1) \<Rightarrow> (Inl e, c1)
         | (Inr kv, c1) \<Rightarrow> evict_loop sz c1)
      else (Inr (), c))"
  by pat_completeness auto
termination
  by (relation "measure (\<lambda>(sz, c). length (order c))") (auto dest: popitem_order_len [OF sym])

declare evict_loop.simps [simp del]

definition cache_setitem ::
  "'k \<Rightarrow> 'v \<Rightarrow> ('k, 'v, 'c) ttlcache \<Rightarrow> unit result \<times> ('k, 'v, 'c) ttlcache" where
  "cache_setitem key v c =
     (let sz = getsizeof c v in
      if sz > maxsize c then (Inl ValueError, c)
      else
        (case (if (case data c key of None \<Rightarrow> True | Some (v0, sz0) \<Rightarrow> sz0 < sz)
               then evict_loop sz c else (Inr (), c)) of
           (Inl e, c1) \<Rightarrow> (Inl e, c1)
         | (Inr u, c1) \<Rightarrow>
             (let diffsize = (case data c1 key of None \<Rightarrow> sz | Some (v0, sz0) \<Rightarrow> sz - sz0)
              in (Inr (), c1\<lparr>data := (data c1)(key \<mapsto> (v, sz)),
                              currsize := currsize c1 + diffsize\<rparr>))))"

text \<open>
  \<open>__setitem__\<close>: purge, write through the store, then \<open>__getexpiry\<close>. When that
  raises \<open>KeyError\<close> the key is assigned in \<open>__order\<close>; otherwise its old entry leaves
  \<open>__expiry_info\<close>. Last, \<open>__expiry_info[key] = time + ttl\<close>.
\<close>

definition setitem_body ::
  "'k \<Rightarrow> 'v \<Rightarrow> int \<Rightarrow> ('k, 'v, 'c) ttlcache \<Rightarrow> unit result \<times> ('k, 'v, 'c) ttlcache" where
  "setitem_body key v time c0 =
     (case expire (Some time) c0 of
        (Inl e, c1) \<Rightarrow> (Inl e, c1)
      | (Inr u, c1) \<Rightarrow>
          (case cache_setitem key v c1 of
             (Inl e, c2) \<Rightarrow> (Inl e, c2)
           | (Inr u, c2) \<Rightarrow>
               (case getexpiry key c2 of
                  (Inl e, c3) \<Rightarrow>
                    (if e = KeyError then
                       (let c4 = c3\<lparr>order := keys_set key (order c3)\<rparr>
                        in (Inr (), c4\<lparr>expiry_info :=
                              od_set key (time + ttl c4) (expiry_info c4)\<rparr>))
                     else (Inl e, c3))
                | (Inr old, c3) \<Rightarrow>
                    (case od_del key (expiry_info c3) of
                       None \<Rightarrow> (Inl KeyError, c3)
                     | Some ei \<Rightarrow>
                         (let c4 = c3\<lparr>expiry_info := ei\<rparr>
                          in (Inr (), c4\<lparr>expiry_info :=
                                od_set key (time + ttl c4) (expiry_info c4)\<rparr>))))))"

definition setitem ::
  "'k \<Rightarrow> 'v \<Rightarrow> ('k, 'v, 'c) ttlcache \<Rightarrow> unit result \<times> ('k, 'v, 'c) ttlcache" where
  "setitem key v c = with_timer (setitem_body key v) c"

text \<open>
  Modelled from the spec: \<open>Cache.clear\<close>, inherited from the mapping base class and not
  among the sources. Section 4.5: after the purge, clear removes everything; it does so
  entry by entry through \<open>self.popitem()\<close>, until that raises \<open>KeyError\<close>.
\<close>

function clear_loop :: "('k, 'v, 'c) ttlcache \<Rightarrow> unit result \<times> ('k, 'v, 'c) ttlcache" where
  "clear_loop c =
     (case popitem c of
        (Inl e, c1) \<Rightarrow> (if e = KeyError then (Inr (), c1) else (Inl e, c1))
      | (Inr kv, c1) \<Rightarrow> clear_loop c1)"
  by pat_completeness auto
termination
  by (relation "measure (\<lambda>c. length (order c))") (auto dest: popitem_order_len [OF sym])

declare clear_loop.simps [simp del]

definition clear_body ::
  "int \<Rightarrow> ('k, 'v, 'c) ttlcache \<Rightarrow> unit result \<times> ('k, 'v, 'c) ttlcache" where
  "clear_body time c0 =
     (case expire (Some time) c0 of
        (Inl e, c1) \<Rightarrow> (Inl e, c1)
      | (Inr u, c1) \<Rightarrow> clear_loop c1)"

definition clear :: "('k, 'v, 'c) ttlcache \<Rightarrow> unit result \<times> ('k, 'v, 'c) ttlcache" where
  "clear c = with_timer clear_body c"


subsection \<open>Sequences of calls\<close>

text \<open>
  A caller of \<open>_Timer\<close> calls it, enters it or leaves it. \<open>timer_run\<close> performs a
  list of such calls and collects what the calls and the entries return.
  \<open>inside_scope d xs\<close> says that every call of \<open>xs\<close> happens at a nesting depth above
  zero when the depth before the first is \<open>d\<close>: no call comes after the outermost scope
  has been left.
\<close>

datatype timer_op = Call | Enter | Exit

fun timer_step :: "timer_op \<Rightarrow> 'c timer_state \<Rightarrow> int result option \<times> 'c timer_state" where
  "timer_step Call s = (case timer_call s of (r, s1) \<Rightarrow> (Some r, s1))"
| "timer_step Enter s = (case timer_enter s of (r, s1) \<Rightarrow> (Some r, s1))"
| "timer_step Exit s = (None, timer_exit s)"

fun timer_run :: "timer_op list \<Rightarrow> 'c timer_state \<Rightarrow> int result list \<times> 'c timer_state" where
  "timer_run [] s = ([], s)"
| "timer_run (x # xs) s =
     (case timer_step x s of
        (r, s1) \<Rightarrow> (case timer_run xs s1 of (rs, s2) \<Rightarrow> ((case r of None \<Rightarrow> [] | Some y \<Rightarrow> [y]) @ rs, s2)))"

fun inside_scope :: "int \<Rightarrow> timer_op list \<Rightarrow> bool" where
  "inside_scope d [] = True"
| "inside_scope d (Call # xs) = (d > 0 \<and> inside_scope d xs)"
| "inside_scope d (Enter # xs) = (d > 0 \<and> inside_scope (d + 1) xs)"
| "inside_scope d (Exit # xs) = (d > 0 \<and> inside_scope (d - 1) xs)"

text \<open>
  Two clocks for concrete runs: one that counts its own calls, and one that a test sets by
  hand between operations (\<open>at_time\<close>) and that a call reads without advancing.
\<close>

definition counting_clock :: "nat \<Rightarrow> int \<times> nat" where
  "counting_clock n = (int n * 10, Suc n)"

definition manual_clock :: "int \<Rightarrow> int \<times> int" where
  "manual_clock w = (w, w)"

definition at_time :: "int \<Rightarrow> ('k, 'v, int) ttlcache \<Rightarrow> ('k, 'v, int) ttlcache" where
  "at_time t c = c\<lparr>timer := (timer c)\<lparr>t_clock := t\<rparr>\<rparr>"

subsection \<open>The lockstep of the three key sets\<close>

text \<open>
  The Expiry Index, the Access Order Index and the store hold the same keys.
\<close>

definition lockstep :: "('k, 'v, 'c) ttlcache \<Rightarrow> bool" where
  "lockstep c = (fst ` set (expiry_info c) = set (order c) \<and> set (order c) = dom (data c))"

text \<open>
  The state a successful \<open>__setitem__\<close> leaves, from the state after the write through
  the store: the key is last in \<open>__order\<close> and its new expiry time is last in
  \<open>__expiry_info\<close>.
\<close>

definition set_tail :: "'k \<Rightarrow> int \<Rightarrow> ('k, 'v, 'c) ttlcache \<Rightarrow> ('k, 'v, 'c) ttlcache" where
  "set_tail key time c2 =
     c2\<lparr>order := filter (\<lambda>k. k \<noteq> key) (order c2) @ [key],
        expiry_info := filter (\<lambda>p. fst p \<noteq> key) (expiry_info c2) @ [(key, time + ttl c2)]\<rparr>"

text \<open>
  Inside a scope of the timer: the nesting depth is above zero and the cached reading is
  \<open>t\<close>.
\<close>

definition scoped :: "int \<Rightarrow> ('k, 'v, 'c) ttlcache \<Rightarrow> bool" where
  "scoped t c = (0 < t_nesting (timer c) \<and> t_time (timer c) = Some t)"


text \<open>
  One list thins another when it keeps some of its elements, in their order.
\<close>

definition thins :: "'a list \<Rightarrow> 'a list \<Rightarrow> bool" where
  "thins ys xs = (\<exists>P. ys = filter P xs)"

text \<open>
  The order invariant of the two indexes: the keys of the Expiry Index are distinct and so
  are those of the Access Order Index, the expiry times are in non-decreasing order and
  none exceeds \<open>B\<close>, and the time-to-live is \<open>d\<close>.
\<close>

definition tidy :: "int \<Rightarrow> int \<Rightarrow> ('k, 'v, 'c) ttlcache \<Rightarrow> bool" where
  "tidy B d c =
     (distinct (map fst (expiry_info c)) \<and> distinct (order c)
      \<and> sorted (map snd (expiry_info c)) \<and> list_all (\<lambda>p. snd p \<le> B) (expiry_info c)
      \<and> ttl c = d)"

subsection \<open>Runs of public calls\<close>

text \<open>
  The public calls of the cache that change its state, and a run of such calls on the clock
  set by hand: before each call the clock is set to the reading paired with it.
\<close>

datatype ('k, 'v) call =
  SetItem 'k 'v | GetItem 'k | DelItem 'k | Contains 'k | Expire "int option"
  | PopItem | Pop 'k | Clear

fun perform :: "('k, 'v) call \<Rightarrow> ('k, 'v, 'c) ttlcache \<Rightarrow> ('k, 'v, 'c) ttlcache" where
  "perform (SetItem key v) c = snd (setitem key v c)"
| "perform (GetItem key) c = snd (getitem key c)"
| "perform (DelItem key) c = snd (delitem key c)"
| "perform (Contains key) c = snd (contains key c)"
| "perform (Expire time_arg) c = snd (expire time_arg c)"
| "perform PopItem c = snd (popitem c)"
| "perform (Pop key) c = snd (pop key c)"
| "perform Clear c = snd (clear c)"

fun run :: "(int \<times> ('k, 'v) call) list \<Rightarrow> ('k, 'v, int) ttlcache \<Rightarrow> ('k, 'v, int) ttlcache" where
  "run [] c = c"
| "run ((t, x) # rest) c = run rest (perform x (at_time t c))"

text \<open>
  Between public calls no scope of the timer is open; here the clock is the one set by
  hand.
\<close>

definition idle :: "('k, 'v, int) ttlcache \<Rightarrow> bool" where
  "idle c = (t_nesting (timer c) = 0 \<and> t_timer (timer c) = manual_clock)"

text \<open>
  What every run at non-decreasing readings keeps: the three key sets are in lockstep, the
  indexes are in order with no expiry time beyond the last reading plus the time-to-live,
  and no scope is open.
\<close>

definition ready :: "int \<Rightarrow> int \<Rightarrow> ('k, 'v, int) ttlcache \<Rightarrow> bool" where
  "ready T d c = (lockstep c \<and> tidy (T + d) d c \<and> idle c)"

subsection \<open>Concrete caches\<close>

text \<open>
  A cache of \<open>maxsize\<close> 2 and \<open>ttl\<close> 10 where every value has size 1, on the clock set
  by hand; and the same cache after \<open>a\<close> was set at time 0 and \<open>b\<close> at time 1.
\<close>

definition fresh :: "(string, int, int) ttlcache" where
  "fresh = init 2 10 manual_clock 0 (\<lambda>v. 1)"

definition two_entries :: "(string, int, int) ttlcache" where
  "two_entries = snd (setitem ''b'' 2 (at_time 1 (snd (setitem ''a'' 1 (at_time 0 fresh)))))"



definition spare :: "(string, int, int) ttlcache" where
  "spare = run [(0, SetItem ''a'' 1), (1, SetItem ''b'' 2)] (init 3 10 manual_clock 0 (\<lambda>v. 1))"

definition lru_scenario :: "(string, int, int) ttlcache" where
  "lru_scenario =
     run [(0, SetItem ''a'' 1), (1, SetItem ''b'' 2), (2, GetItem ''a''), (3, SetItem ''c'' 3)] fresh"

section \<open>Properties\<close>

subsection \<open>The clock snapshot\<close>

lemma timer_run_inside:
  "inside_scope (t_nesting s) xs \<Longrightarrow> t_time s = Some t \<Longrightarrow>
   set (fst (timer_run xs s)) \<subseteq> {Inr t} \<and> t_clock (snd (timer_run xs s)) = t_clock s
   \<and> t_time (snd (timer_run xs s)) = Some t"
proof (induction xs arbitrary: s)
  case Nil
  then show ?case by simp
next
  case (Cons x xs)
  show ?case
  proof (cases x)
    case Call
    with Cons.prems have d: "t_nesting s > 0" and r: "inside_scope (t_nesting s) xs" by simp_all
    from d Cons.prems(2) have st: "timer_call s = (Inr t, s)" by (simp add: timer_call_def)
    from Cons.IH[OF r Cons.prems(2)] st Call show ?thesis by (auto split: prod.splits)
  next
    case Enter
    with Cons.prems have d: "t_nesting s > 0" and r: "inside_scope (t_nesting s + 1) xs" by simp_all
    let ?s1 = "s\<lparr>t_nesting := t_nesting s + 1\<rparr>"
    from d Cons.prems(2) have st: "timer_enter s = (Inr t, ?s1)" by (simp add: timer_enter_def)
    have "inside_scope (t_nesting ?s1) xs" "t_time ?s1 = Some t" using r Cons.prems(2) by simp_all
    from Cons.IH[OF this] st Enter show ?thesis by (auto split: prod.splits)
  next
    case Exit
    with Cons.prems have d: "t_nesting s > 0" and r: "inside_scope (t_nesting s - 1) xs" by simp_all
    let ?s1 = "timer_exit s"
    have "inside_scope (t_nesting ?s1) xs" "t_time ?s1 = Some t" using r Cons.prems(2) by (simp_all add: timer_exit_def)
    from Cons.IH[OF this] Exit show ?thesis by (auto simp: timer_exit_def split: prod.splits)
  qed
qed

text \<open>
  Claim C8. At nesting depth 0 a call of the timer and an entry both query the underlying
  clock, and the entry caches the reading and raises the depth to 1. At a depth above 0
  a call and an entry return the cached reading and leave the clock alone. Through any
  sequence of calls, entries and exits that stays inside the outermost scope, to any
  depth, every call and entry returns that one cached reading and the underlying clock is
  not sampled again.
\<close>

theorem timer_snapshot_reentrant:
  "(t_nesting s = 0 \<longrightarrow>
      timer_call s = (Inr (fst (t_timer s (t_clock s))), s\<lparr>t_clock := snd (t_timer s (t_clock s))\<rparr>)
    \<and> timer_enter s = (Inr (fst (t_timer s (t_clock s))),
         s\<lparr>t_clock := snd (t_timer s (t_clock s)), t_time := Some (fst (t_timer s (t_clock s))),
           t_nesting := 1\<rparr>))
   \<and> (t_nesting s > 0 \<and> t_time s = Some t \<longrightarrow>
        timer_call s = (Inr t, s) \<and> timer_enter s = (Inr t, s\<lparr>t_nesting := t_nesting s + 1\<rparr>))
   \<and> (t_time s = Some t \<and> inside_scope (t_nesting s) xs \<longrightarrow>
        set (fst (timer_run xs s)) \<subseteq> {Inr t} \<and> t_clock (snd (timer_run xs s)) = t_clock s)"
  using timer_run_inside[of s xs t]
  by (auto simp: timer_call_def timer_enter_def split: prod.splits)

theorem timer_snapshot_reentrant_witness:
  "(let s0 = timer_init counting_clock 3; s1 = snd (timer_enter s0);
        ops = [Call, Enter, Call, Enter, Exit, Call, Exit, Exit]
    in t_nesting s0 = 0 \<and> timer_call s0 = (Inr 30, s0\<lparr>t_clock := 4\<rparr>)
       \<and> timer_enter s0 = (Inr 30, s0\<lparr>t_clock := 4, t_time := Some 30, t_nesting := 1\<rparr>)
       \<and> t_nesting s1 > 0 \<and> t_time s1 = Some 30 \<and> inside_scope (t_nesting s1) ops
       \<and> timer_call s1 = (Inr 30, s1) \<and> fst (timer_enter s1) = Inr 30
       \<and> fst (timer_run ops s1) = [Inr 30, Inr 30, Inr 30, Inr 30, Inr 30]
       \<and> t_clock (snd (timer_run ops s1)) = 4 \<and> t_nesting (snd (timer_run ops s1)) = 0)"
  using timer_snapshot_reentrant[of "timer_init counting_clock 3" 30 "[]"]
        timer_snapshot_reentrant[of "snd (timer_enter (timer_init counting_clock 3))" 30
           "[Call, Enter, Call, Enter, Exit, Call, Exit, Exit]"]
  by (simp add: timer_init_def counting_clock_def timer_enter_def timer_call_def timer_exit_def Let_def)

subsection \<open>Key sets\<close>

lemma lockstep_timer [simp]: "lockstep (c\<lparr>timer := tm\<rparr>) = lockstep c"
  by (simp add: lockstep_def)

lemma lockstepI:
  "fst ` set (expiry_info c) = S \<Longrightarrow> set (order c) = S \<Longrightarrow> dom (data c) = S \<Longrightarrow> lockstep c"
  by (simp add: lockstep_def)

lemma lockstepD:
  "lockstep c \<Longrightarrow> fst ` set (expiry_info c) = dom (data c) \<and> set (order c) = dom (data c)"
  by (simp add: lockstep_def)

lemma keys_del_Some:
  "keys_del key ks = Some ks' \<Longrightarrow> key \<in> set ks \<and> ks' = filter (\<lambda>k. k \<noteq> key) ks"
  by (auto simp: keys_del_def split: if_splits)

lemma keys_del_set: "keys_del key ks = Some ks' \<Longrightarrow> set ks' = set ks - {key}"
  by (auto simp: keys_del_def split: if_splits)

lemma keys_del_None: "keys_del key ks = None \<Longrightarrow> key \<notin> set ks"
  by (auto simp: keys_del_def split: if_splits)

lemma od_del_Some:
  "od_del key xs = Some xs' \<Longrightarrow> key \<in> fst ` set xs \<and> xs' = filter (\<lambda>p. fst p \<noteq> key) xs"
  by (auto simp: od_del_def split: if_splits)

lemma od_del_set: "od_del key xs = Some xs' \<Longrightarrow> fst ` set xs' = fst ` set xs - {key}"
  by (auto simp: od_del_def split: if_splits)

lemma od_del_None: "od_del key xs = None \<Longrightarrow> key \<notin> fst ` set xs"
  by (auto simp: od_del_def split: if_splits)

lemma move_to_end_Some:
  "move_to_end key ks = Some ks' \<Longrightarrow> key \<in> set ks \<and> ks' = filter (\<lambda>k. k \<noteq> key) ks @ [key]"
  by (auto simp: move_to_end_def split: if_splits)

lemma move_to_end_set: "move_to_end key ks = Some ks' \<Longrightarrow> set ks' = set ks"
  by (auto simp: move_to_end_def split: if_splits)

lemma move_to_end_None: "move_to_end key ks = None \<Longrightarrow> key \<notin> set ks"
  by (auto simp: move_to_end_def split: if_splits)

lemma od_get_None: "od_get key xs = None \<Longrightarrow> key \<notin> fst ` set xs"
  by (simp add: od_get_def map_of_eq_None_iff)


lemma fst_set_filter_neq: "fst ` set (filter (\<lambda>p. fst p \<noteq> key) xs) = fst ` set xs - {key}"
  by (induction xs) auto

lemma cache_delitem_Inr:
  "cache_delitem key c = (Inr u, c') \<Longrightarrow>
     key \<in> dom (data c) \<and> dom (data c') = dom (data c) - {key} \<and> order c' = order c
     \<and> expiry_info c' = expiry_info c \<and> timer c' = timer c \<and> ttl c' = ttl c"
  by (auto simp: cache_delitem_def split: option.splits if_splits)

lemma cache_delitem_Inl: "cache_delitem key c = (Inl e, c') \<Longrightarrow> c' = c"
  by (auto simp: cache_delitem_def split: option.splits)

lemma expire_body_lockstep:
  assumes "expire_body key c = (r, c')" and "lockstep c"
  shows "lockstep c'"
proof (cases "cache_delitem key c")
  case (Pair r1 c1)
  show ?thesis
  proof (cases r1)
    case (Inl e)
    with Pair assms show ?thesis
      by (auto simp: expire_body_def dest: cache_delitem_Inl)
  next
    case (Inr u)
    note d = cache_delitem_Inr[OF Pair[unfolded Inr]]
    from d lockstepD[OF assms(2)] have k1: "key \<in> fst ` set (expiry_info c1)" and k2: "key \<in> set (order c1)"
      by simp_all
    from k1 obtain ei where ei: "od_del key (expiry_info c1) = Some ei" by (auto simp: od_del_def)
    from k2 obtain ks where ks: "keys_del key (order c1) = Some ks" by (auto simp: keys_del_def)
    from assms(1) Pair Inr ei ks have c': "c' = c1\<lparr>expiry_info := ei, order := ks\<rparr>"
      by (simp add: expire_body_def)
    show ?thesis
      using d lockstepD[OF assms(2)] od_del_set[OF ei] keys_del_set[OF ks]
      by (intro lockstepI[where S = "dom (data c) - {key}"]) (simp_all add: c')
  qed
qed

lemma expire_loop_lockstep:
  "expire_loop time xs c = (r, c') \<Longrightarrow> lockstep c \<Longrightarrow> lockstep c'"
proof (induction xs arbitrary: c)
  case Nil
  then show ?case by simp
next
  case (Cons x xs)
  obtain key e where x: "x = (key, e)" by (cases x)
  obtain r1 c1 where b: "expire_body key c = (r1, c1)" by (cases "expire_body key c")
  have l1: "lockstep c1" using b Cons.prems(2) by (rule expire_body_lockstep)
  show ?case
  proof (cases "e \<ge> time \<or> isl r1")
    case True
    with Cons.prems x b l1 show ?thesis by (auto split: sum.splits if_splits)
  next
    case False
    with Cons.prems x b have "expire_loop time xs c1 = (r, c')" by (auto split: sum.splits)
    from Cons.IH[OF this l1] show ?thesis .
  qed
qed

lemma expire_lockstep:
  "expire time_arg c = (r, c') \<Longrightarrow> lockstep c \<Longrightarrow> lockstep c'"
  by (auto simp: expire_def split: option.splits prod.splits sum.splits
      dest: expire_loop_lockstep)

lemma with_timer_lockstep:
  assumes "with_timer body c = (r, c')" and "lockstep c"
    and "\<And>time c0 r1 c1. body time c0 = (r1, c1) \<Longrightarrow> lockstep c0 \<Longrightarrow> lockstep c1"
  shows "lockstep c'"
proof (cases "timer_enter (timer c)")
  case (Pair r0 tm)
  show ?thesis
  proof (cases r0)
    case (Inl e)
    with Pair assms(1,2) show ?thesis by (auto simp: with_timer_def)
  next
    case (Inr time)
    obtain r1 c1 where b: "body time (c\<lparr>timer := tm\<rparr>) = (r1, c1)"
      by (cases "body time (c\<lparr>timer := tm\<rparr>)")
    from assms(3)[OF b] assms(2) have "lockstep c1" by simp
    with Pair Inr b assms(1) show ?thesis by (auto simp: with_timer_def)
  qed
qed

lemma getexpiry_Inr:
  "getexpiry key c = (Inr e, c') \<Longrightarrow>
     od_get key (expiry_info c) = Some e \<and> key \<in> set (order c)
     \<and> c' = c\<lparr>order := filter (\<lambda>k. k \<noteq> key) (order c) @ [key]\<rparr>"
  by (auto simp: getexpiry_def move_to_end_def split: option.splits if_splits)

lemma getexpiry_Inl:
  "getexpiry key c = (Inl e, c') \<Longrightarrow>
     e = KeyError \<and> c' = c \<and> (key \<notin> fst ` set (expiry_info c) \<or> key \<notin> set (order c))"
  by (auto simp: getexpiry_def split: option.splits dest: od_get_None move_to_end_None)

lemma lockstep_move:
  "lockstep c \<Longrightarrow> key \<in> set (order c) \<Longrightarrow>
     lockstep (c\<lparr>order := filter (\<lambda>k. k \<noteq> key) (order c) @ [key]\<rparr>)"
  by (auto simp: lockstep_def)

lemma getexpiry_lockstep:
  "getexpiry key c = (r, c') \<Longrightarrow> lockstep c \<Longrightarrow> lockstep c'"
  by (cases r) (auto dest!: getexpiry_Inl getexpiry_Inr intro: lockstep_move)

lemma cache_getitem_state: "cache_getitem key c = (r, c') \<Longrightarrow> c' = c"
  by (auto simp: cache_getitem_def missing_def split: option.splits)

lemma getitem_state:
  "getitem key c = (r, c') \<Longrightarrow> \<exists>tm. c' = (snd (getexpiry key c))\<lparr>timer := tm\<rparr>"
proof -
  assume a: "getitem key c = (r, c')"
  obtain r1 c1 where g: "getexpiry key c = (r1, c1)" by (cases "getexpiry key c")
  have t: "c1 = c1\<lparr>timer := timer c1\<rparr>" by simp
  from a g have "c' = c1 \<or> (\<exists>tm. c' = c1\<lparr>timer := tm\<rparr>)"
    by (auto simp: getitem_def missing_def split: sum.splits prod.splits if_splits
        dest!: cache_getitem_state)
  then have "\<exists>tm. c' = c1\<lparr>timer := tm\<rparr>" using t by metis
  with g show ?thesis by simp
qed

lemma getitem_lockstep:
  assumes "getitem key c = (r, c')" and "lockstep c"
  shows "lockstep c'"
proof -
  obtain r1 c1 where g: "getexpiry key c = (r1, c1)" by (cases "getexpiry key c")
  have "lockstep c1" using g assms(2) by (rule getexpiry_lockstep)
  with getitem_state[OF assms(1)] g show ?thesis by auto
qed

lemma delitem_lockstep:
  assumes "delitem key c = (r, c')" and "lockstep c"
  shows "lockstep c'"
proof (cases "cache_delitem key c")
  case (Pair r1 c1)
  show ?thesis
  proof (cases r1)
    case (Inl e)
    with Pair assms show ?thesis
      by (auto simp: delitem_def dest: cache_delitem_Inl)
  next
    case (Inr u)
    note d = cache_delitem_Inr[OF Pair[unfolded Inr]]
    from d lockstepD[OF assms(2)] have k1: "key \<in> fst ` set (expiry_info c1)" and k2: "key \<in> set (order c1)"
      by simp_all
    from k1 obtain e where e: "od_get key (expiry_info c1) = Some e"
      by (cases "od_get key (expiry_info c1)") (auto dest: od_get_None)
    from k2 obtain ks where ks: "keys_del key (order c1) = Some ks" by (auto simp: keys_del_def)
    from assms(1) Pair Inr e ks obtain tm where
      c': "c' = c1\<lparr>order := ks, expiry_info := filter (\<lambda>p. fst p \<noteq> key) (expiry_info c1), timer := tm\<rparr>"
      by (auto simp: delitem_def split: prod.splits sum.splits)
    have f: "fst ` set (expiry_info c') = fst ` set (expiry_info c1) - {key}"
      unfolding c' using fst_set_filter_neq[of key "expiry_info c1"] by simp
    show ?thesis
      using d lockstepD[OF assms(2)] keys_del_set[OF ks] f
      by (intro lockstepI[where S = "dom (data c) - {key}"]) (simp_all add: c')
  qed
qed

lemma cache_pop_lockstep:
  "cache_pop key c = (r, c') \<Longrightarrow> lockstep c \<Longrightarrow> lockstep c'"
  by (auto simp: cache_pop_def split: prod.splits sum.splits
      dest: getitem_lockstep delitem_lockstep)


lemma pop_lockstep:
  assumes "pop key c = (r, c')" and "lockstep c"
  shows "lockstep c'"
  using assms(1)[unfolded pop_def] assms(2)
  by (rule with_timer_lockstep) (rule cache_pop_lockstep)

lemma popitem_body_lockstep:
  assumes "popitem_body time c0 = (r, c')" and "lockstep c0"
  shows "lockstep c'"
proof (cases "expire (Some time) c0")
  case (Pair r1 c1)
  have l1: "lockstep c1" using Pair assms(2) by (rule expire_lockstep)
  show ?thesis
  proof (cases "order c1")
    case Nil
    with Pair assms(1) l1 show ?thesis by (auto simp: popitem_body_def split: sum.splits)
  next
    case (Cons key ks)
    obtain r2 c2 where p: "pop key c1 = (r2, c2)" by (cases "pop key c1")
    have "lockstep c2" using p l1 by (rule pop_lockstep)
    with Pair Cons p assms(1) l1 show ?thesis by (auto simp: popitem_body_def split: sum.splits)
  qed
qed

lemma popitem_lockstep:
  assumes "popitem c = (r, c')" and "lockstep c"
  shows "lockstep c'"
  using assms(1)[unfolded popitem_def] assms(2)
  by (rule with_timer_lockstep) (rule popitem_body_lockstep)

lemma evict_loop_lockstep:
  "evict_loop sz c = (r, c') \<Longrightarrow> lockstep c \<Longrightarrow> lockstep c'"
proof (induction sz c rule: evict_loop.induct)
  case (1 sz c)
  show ?case
  proof (cases "currsize c + sz > maxsize c")
    case False
    with "1.prems" show ?thesis by (simp add: evict_loop.simps[of sz c])
  next
    case True
    obtain r1 c1 where p: "popitem c = (r1, c1)" by (cases "popitem c")
    have l1: "lockstep c1" using p "1.prems"(2) by (rule popitem_lockstep)
    show ?thesis
    proof (cases r1)
      case (Inl e)
      with "1.prems" True p l1 show ?thesis by (simp add: evict_loop.simps[of sz c])
    next
      case (Inr kv)
      with "1.prems" True p have "evict_loop sz c1 = (r, c')" by (simp add: evict_loop.simps[of sz c])
      from "1.IH"[OF True p[symmetric] Inr this l1] show ?thesis .
    qed
  qed
qed

lemma clear_loop_lockstep:
  "clear_loop c = (r, c') \<Longrightarrow> lockstep c \<Longrightarrow> lockstep c'"
proof (induction c rule: clear_loop.induct)
  case (1 c)
  obtain r1 c1 where p: "popitem c = (r1, c1)" by (cases "popitem c")
  have l1: "lockstep c1" using p "1.prems"(2) by (rule popitem_lockstep)
  show ?case
  proof (cases r1)
    case (Inl e)
    with "1.prems" p l1 show ?thesis by (auto simp: clear_loop.simps[of c] split: if_splits)
  next
    case (Inr kv)
    with "1.prems" p have "clear_loop c1 = (r, c')" by (simp add: clear_loop.simps[of c])
    from "1.IH"[OF p[symmetric] Inr this l1] show ?thesis .
  qed
qed

lemma clear_body_lockstep:
  assumes "clear_body time c0 = (r, c')" and "lockstep c0"
  shows "lockstep c'"
proof (cases "expire (Some time) c0")
  case (Pair r1 c1)
  have l1: "lockstep c1" using Pair assms(2) by (rule expire_lockstep)
  show ?thesis
  proof (cases r1)
    case (Inl e)
    with Pair assms(1) l1 show ?thesis by (simp add: clear_body_def)
  next
    case (Inr u)
    with Pair assms(1) have "clear_loop c1 = (r, c')" by (simp add: clear_body_def)
    then show ?thesis using l1 by (rule clear_loop_lockstep)
  qed
qed

lemma clear_lockstep:
  assumes "clear c = (r, c')" and "lockstep c"
  shows "lockstep c'"
  using assms(1)[unfolded clear_def] assms(2)
  by (rule with_timer_lockstep) (rule clear_body_lockstep)

lemma od_set_map_fst:
  "map fst (od_set key v xs) = (if key \<in> fst ` set xs then map fst xs else map fst xs @ [key])"
  by (induction xs) (auto simp: od_set_def)

lemma od_set_keys: "fst ` set (od_set key v xs) = insert key (fst ` set xs)"
proof -
  have "fst ` set (od_set key v xs) = set (map fst (od_set key v xs))" by simp
  also have "\<dots> = insert key (fst ` set xs)" unfolding od_set_map_fst by auto
  finally show ?thesis .
qed

lemma keys_set_set: "set (keys_set key ks) = insert key (set ks)"
  by (auto simp: keys_set_def)

lemma cache_setitem_cases:
  assumes "cache_setitem key v c = (r, c')"
  obtains (too_large) "r = Inl ValueError" "c' = c"
    | (evict_failed) e where "r = Inl e" "evict_loop (getsizeof c v) c = (Inl e, c')"
    | (stored) c1 n where "r = Inr ()" "c1 = c \<or> evict_loop (getsizeof c v) c = (Inr (), c1)"
        "c' = c1\<lparr>data := (data c1)(key \<mapsto> (v, getsizeof c v)), currsize := n\<rparr>"
proof (cases "getsizeof c v > maxsize c")
  case True
  with assms too_large show ?thesis by (simp add: cache_setitem_def)
next
  case big: False
  show ?thesis
  proof (cases "case data c key of None \<Rightarrow> True | Some (v0, sz0) \<Rightarrow> sz0 < getsizeof c v")
    case False
    with assms big have "r = Inr ()" and "\<exists>n. c' = c\<lparr>data := (data c)(key \<mapsto> (v, getsizeof c v)), currsize := n\<rparr>"
      by (auto simp: cache_setitem_def Let_def)
    with stored[of c] show ?thesis by blast
  next
    case True
    obtain r1 c1 where ev: "evict_loop (getsizeof c v) c = (r1, c1)"
      by (cases "evict_loop (getsizeof c v) c")
    show ?thesis
    proof (cases r1)
      case (Inl e)
      with assms big True ev have "r = Inl e" "c' = c1" by (simp_all add: cache_setitem_def Let_def)
      with evict_failed ev Inl show ?thesis by simp
    next
      case (Inr u)
      with assms big True ev have "r = Inr ()"
        and "\<exists>n. c' = c1\<lparr>data := (data c1)(key \<mapsto> (v, getsizeof c v)), currsize := n\<rparr>"
        by (auto simp: cache_setitem_def Let_def)
      with stored[of c1] ev Inr show ?thesis by auto
    qed
  qed
qed

lemma filter_neq_id: "key \<notin> set ks \<Longrightarrow> filter (\<lambda>k. k \<noteq> key) ks = ks"
  by (induction ks) auto

lemma filter_fst_neq_id: "key \<notin> fst ` set xs \<Longrightarrow> filter (\<lambda>p. fst p \<noteq> key) xs = xs"
  by (induction xs) auto

lemma od_set_fresh: "key \<notin> fst ` set xs \<Longrightarrow> od_set key v xs = xs @ [(key, v)]"
  by (simp add: od_set_def)

lemma key_notin_filter_fst: "key \<notin> fst ` set (filter (\<lambda>p. fst p \<noteq> key) xs)"
  by (induction xs) auto

lemma setitem_body_after_store:
  assumes e: "expire (Some time) c0 = (Inr u1, c1)"
    and s: "cache_setitem key v c1 = (Inr u2, c2)"
    and k: "fst ` set (expiry_info c2) = set (order c2)"
  shows "setitem_body key v time c0 = (Inr (), set_tail key time c2)"
proof (cases "key \<in> set (order c2)")
  case True
  with k obtain old where old: "od_get key (expiry_info c2) = Some old"
    by (cases "od_get key (expiry_info c2)") (auto dest: od_get_None)
  from True have g: "getexpiry key c2 = (Inr old, c2\<lparr>order := filter (\<lambda>k. k \<noteq> key) (order c2) @ [key]\<rparr>)"
    by (simp add: getexpiry_def old move_to_end_def)
  from True k have d: "od_del key (expiry_info c2) = Some (filter (\<lambda>p. fst p \<noteq> key) (expiry_info c2))"
    by (simp add: od_del_def)
  show ?thesis
    by (simp add: setitem_body_def e s g d Let_def set_tail_def od_set_fresh[OF key_notin_filter_fst])
next
  case False
  with k have n: "key \<notin> fst ` set (expiry_info c2)" by simp
  then have "od_get key (expiry_info c2) = None" by (simp add: od_get_def map_of_eq_None_iff)
  then have g: "getexpiry key c2 = (Inl KeyError, c2)" by (simp add: getexpiry_def)
  show ?thesis
    using False n
    by (simp add: setitem_body_def e s g Let_def set_tail_def keys_set_def od_set_fresh
        filter_neq_id filter_fst_neq_id)
qed

lemma setitem_body_cases:
  assumes "setitem_body key v time c0 = (r, c')" and "lockstep c0"
  obtains (failed) e where "r = Inl e" "lockstep c'"
    | (written) c1 c2 where "r = Inr ()" "expire (Some time) c0 = (Inr (), c1)"
        "cache_setitem key v c1 = (Inr (), c2)" "fst ` set (expiry_info c2) = set (order c2)"
        "dom (data c2) = insert key (set (order c2))"
        "c' = set_tail key time c2"
proof -
  obtain r1 c1 where e: "expire (Some time) c0 = (r1, c1)" by (cases "expire (Some time) c0")
  have l1: "lockstep c1" using e assms(2) by (rule expire_lockstep)
  show ?thesis
  proof (cases r1)
    case (Inl err)
    with assms(1) e have "r = Inl err" "c' = c1" by (auto simp: setitem_body_def)
    with l1 failed show ?thesis by blast
  next
    case Inr1: (Inr u1)
    obtain r2 c2 where s: "cache_setitem key v c1 = (r2, c2)" by (cases "cache_setitem key v c1")
    from s show ?thesis
    proof (cases rule: cache_setitem_cases)
      case too_large
      with assms(1) e Inr1 s have "r = Inl ValueError" "c' = c1" by (auto simp: setitem_body_def)
      with l1 failed show ?thesis by blast
    next
      case (evict_failed err)
      then have l2: "lockstep c2" using l1 by (blast dest: evict_loop_lockstep)
      from assms(1) e Inr1 s evict_failed have "r = Inl err" "c' = c2" by (auto simp: setitem_body_def)
      with l2 failed show ?thesis by blast
    next
      case (stored c1' n)
      then have l1': "lockstep c1'" using l1 by (blast dest: evict_loop_lockstep)
      from stored(3) lockstepD[OF l1'] have k: "fst ` set (expiry_info c2) = set (order c2)"
        and d: "dom (data c2) = insert key (set (order c2))" by auto
      from e Inr1 s stored(1) have "setitem_body key v time c0 = (Inr (), set_tail key time c2)"
        by (intro setitem_body_after_store[OF _ _ k]) auto
      with assms(1) have "r = Inr ()" "c' = set_tail key time c2" by simp_all
      with written[of c1 c2] e Inr1 s stored(1) k d show ?thesis by simp
    qed
  qed
qed

lemma set_tail_lockstep:
  assumes "fst ` set (expiry_info c2) = set (order c2)" and "dom (data c2) = insert key (set (order c2))"
  shows "lockstep (set_tail key time c2)"
proof -
  have f: "fst ` set (filter (\<lambda>p. fst p \<noteq> key) (expiry_info c2)) = set (order c2) - {key}"
    using fst_set_filter_neq[of key "expiry_info c2"] assms(1) by simp
  have "fst ` set (expiry_info (set_tail key time c2)) = insert key (set (order c2))"
    using f by (simp add: set_tail_def image_Un)
  moreover have "set (order (set_tail key time c2)) = insert key (set (order c2))"
    by (auto simp: set_tail_def)
  moreover have "dom (data (set_tail key time c2)) = insert key (set (order c2))"
    using assms(2) by (simp add: set_tail_def)
  ultimately show ?thesis by (rule lockstepI)
qed

lemma setitem_body_lockstep:
  assumes "setitem_body key v time c0 = (r, c')" and "lockstep c0"
  shows "lockstep c'"
  using assms by (cases rule: setitem_body_cases) (simp_all add: set_tail_lockstep)

lemma setitem_lockstep:
  assumes "setitem key v c = (r, c')" and "lockstep c"
  shows "lockstep c'"
  using assms(1)[unfolded setitem_def] assms(2)
  by (rule with_timer_lockstep) (rule setitem_body_lockstep)

subsection \<open>Evaluating concrete runs\<close>

lemmas run_defs =
  init_def timer_init_def at_time_def manual_clock_def fresh_def
  setitem_def setitem_body_def with_timer_def timer_enter_def timer_exit_def timer_call_def
  expire_def expire_body_def cache_setitem_def getexpiry_def
  od_get_def od_del_def od_set_def keys_set_def keys_del_def move_to_end_def
  getitem_def cache_getitem_def missing_def popitem_def popitem_body_def pop_def cache_pop_def
  delitem_def cache_delitem_def clear_def clear_body_def contains_def
  evict_loop.simps clear_loop.simps Let_def

lemma two_entries_eq:
  "two_entries =
     \<lparr>data = [''a'' \<mapsto> (1, 1), ''b'' \<mapsto> (2, 1)], currsize = 2, maxsize = 2,
      getsizeof = (\<lambda>v. 1), expiry_info = [(''a'', 10), (''b'', 11)], order = [''a'', ''b''],
      timer = \<lparr>t_timer = manual_clock, t_clock = 1, t_nesting = 0, t_time = Some 1\<rparr>,
      ttl = 10\<rparr>"
  by (simp add: two_entries_def run_defs)

lemma lockstep_two_entries: "lockstep (at_time t two_entries)"
  by (auto simp: two_entries_eq lockstep_def at_time_def)

subsection \<open>The lockstep invariant\<close>

text \<open>
  Claim C2. From a state whose three key sets are identical, \<open>__setitem__\<close>,
  \<open>__delitem__\<close>, \<open>expire\<close>, \<open>popitem\<close> and \<open>clear\<close> each leave a state whose
  Expiry Index, Access Order Index and store again hold the same keys, whether the
  operation returns or raises.
\<close>

theorem lockstep_preserved:
  assumes "lockstep c"
  shows "lockstep (snd (setitem key v c)) \<and> lockstep (snd (delitem key' c))
       \<and> lockstep (snd (expire time_arg c)) \<and> lockstep (snd (popitem c))
       \<and> lockstep (snd (clear c))"
proof (intro conjI)
  show "lockstep (snd (setitem key v c))"
    using assms by (cases "setitem key v c") (auto dest: setitem_lockstep)
  show "lockstep (snd (delitem key' c))"
    using assms by (cases "delitem key' c") (auto dest: delitem_lockstep)
  show "lockstep (snd (expire time_arg c))"
    using assms by (cases "expire time_arg c") (auto dest: expire_lockstep)
  show "lockstep (snd (popitem c))"
    using assms by (cases "popitem c") (auto dest: popitem_lockstep)
  show "lockstep (snd (clear c))"
    using assms by (cases "clear c") (auto dest: clear_lockstep)
qed

theorem lockstep_preserved_witness:
  "lockstep (at_time 3 two_entries)
   \<and> lockstep (snd (setitem ''c'' 3 (at_time 3 two_entries)))
   \<and> lockstep (snd (delitem ''a'' (at_time 3 two_entries)))
   \<and> lockstep (snd (expire (Some 11) (at_time 3 two_entries)))
   \<and> lockstep (snd (popitem (at_time 3 two_entries)))
   \<and> lockstep (snd (clear (at_time 3 two_entries)))
   \<and> order (snd (setitem ''c'' 3 (at_time 3 two_entries))) = [''b'', ''c'']"
  using lockstep_preserved [OF lockstep_two_entries [of 3], where key = "''c''" and v = 3
      and key' = "''a''" and time_arg = "Some 11"]
    lockstep_two_entries [of 3]
  by (simp add: two_entries_eq run_defs)

subsection \<open>Deleting and reading an expired key\<close>

text \<open>
  Claim C4. When a key is in the store, in the Access Order Index and in the Expiry Index
  and its recorded expiry time is below the time the timer reports, \<open>__delitem__\<close>
  removes it from all three and then raises \<open>KeyError\<close>, the error a delete of an absent
  key raises.
\<close>

theorem delitem_expired_reports_missing:
  assumes "data c key = Some (v, sz)"
    and "key \<in> set (order c)"
    and "od_get key (expiry_info c) = Some expiry_time"
    and "timer_call (timer c) = (Inr now, tm)"
    and "expiry_time < now"
  shows "delitem key c =
           (Inl KeyError,
            c\<lparr>data := (data c)(key := None), currsize := currsize c - sz,
              order := filter (\<lambda>k. k \<noteq> key) (order c),
              expiry_info := filter (\<lambda>p. fst p \<noteq> key) (expiry_info c),
              timer := tm\<rparr>)
         \<and> data (snd (delitem key c)) key = None
         \<and> key \<notin> set (order (snd (delitem key c)))
         \<and> key \<notin> fst ` set (expiry_info (snd (delitem key c)))
         \<and> (\<forall>c2 :: ('k, 'v, 'c) ttlcache. data c2 key = None \<longrightarrow> fst (delitem key c2) = fst (delitem key c))"
  using assms
  by (auto simp: delitem_def cache_delitem_def keys_del_def od_get_def)

theorem delitem_expired_reports_missing_witness:
  "data (at_time 20 two_entries) ''a'' = Some (1, 1)
   \<and> ''a'' \<in> set (order (at_time 20 two_entries))
   \<and> od_get ''a'' (expiry_info (at_time 20 two_entries)) = Some 10
   \<and> timer_call (timer (at_time 20 two_entries)) = (Inr 20, timer (at_time 20 two_entries))
   \<and> (10 :: int) < 20
   \<and> fst (delitem ''a'' (at_time 20 two_entries)) = Inl KeyError
   \<and> data (snd (delitem ''a'' (at_time 20 two_entries))) ''a'' = None
   \<and> order (snd (delitem ''a'' (at_time 20 two_entries))) = [''b'']
   \<and> expiry_info (snd (delitem ''a'' (at_time 20 two_entries))) = [(''b'', 11)]"
  using delitem_expired_reports_missing [of "at_time 20 two_entries" "''a''" 1 1 10 20
      "timer (at_time 20 two_entries)"]
  by (simp add: two_entries_eq run_defs)

text \<open>
  Claim C10. Reading a key whose recorded expiry time is below the time the timer reports
  raises \<open>KeyError\<close> through \<open>__missing__\<close> without purging: the store and the
  Expiry Index are unchanged, and the key has moved to the most recently used end of the
  Access Order Index.
\<close>

theorem getitem_expired_touches:
  assumes "od_get key (expiry_info c) = Some expiry_time"
    and "key \<in> set (order c)"
    and "timer_call (timer c) = (Inr now, tm)"
    and "expiry_time < now"
  shows "getitem key c =
           (Inl KeyError, c\<lparr>order := filter (\<lambda>k. k \<noteq> key) (order c) @ [key], timer := tm\<rparr>)
         \<and> data (snd (getitem key c)) = data c
         \<and> expiry_info (snd (getitem key c)) = expiry_info c
         \<and> last (order (snd (getitem key c))) = key"
  using assms
  by (simp add: getitem_def getexpiry_def move_to_end_def missing_def)

theorem getitem_expired_touches_witness:
  "od_get ''a'' (expiry_info (at_time 20 two_entries)) = Some 10
   \<and> ''a'' \<in> set (order (at_time 20 two_entries))
   \<and> timer_call (timer (at_time 20 two_entries)) = (Inr 20, timer (at_time 20 two_entries))
   \<and> (10 :: int) < 20
   \<and> fst (getitem ''a'' (at_time 20 two_entries)) = Inl KeyError
   \<and> order (at_time 20 two_entries) = [''a'', ''b'']
   \<and> order (snd (getitem ''a'' (at_time 20 two_entries))) = [''b'', ''a'']
   \<and> expiry_info (snd (getitem ''a'' (at_time 20 two_entries))) = [(''a'', 10), (''b'', 11)]"
  using getitem_expired_touches [of "''a''" "at_time 20 two_entries" 10 20
      "timer (at_time 20 two_entries)"]
  by (simp add: two_entries_eq run_defs)

subsection \<open>Inside a scope the timer is left as it is\<close>

lemma timer_call_scoped: "scoped t c \<Longrightarrow> timer_call (timer c) = (Inr t, timer c)"
  by (simp add: scoped_def timer_call_def)

lemma timer_enter_scoped:
  "scoped t c \<Longrightarrow> timer_enter (timer c) = (Inr t, (timer c)\<lparr>t_nesting := t_nesting (timer c) + 1\<rparr>)"
  by (simp add: scoped_def timer_enter_def)

lemma with_timer_frame:
  assumes w: "with_timer body c = (r, c')" and s: "scoped t c"
    and b: "\<And>c0 r1 c1. body t c0 = (r1, c1) \<Longrightarrow> scoped t c0 \<Longrightarrow> timer c1 = timer c0 \<and> ttl c1 = ttl c0"
  shows "timer c' = timer c \<and> ttl c' = ttl c"
proof -
  let ?c0 = "c\<lparr>timer := (timer c)\<lparr>t_nesting := t_nesting (timer c) + 1\<rparr>\<rparr>"
  obtain r1 c1 where bd: "body t ?c0 = (r1, c1)" by (cases "body t ?c0")
  have "scoped t ?c0" using s by (simp add: scoped_def)
  from b[OF bd this] have t1: "timer c1 = timer ?c0" and l1: "ttl c1 = ttl ?c0" by simp_all
  from w bd have "c' = c1\<lparr>timer := timer_exit (timer c1)\<rparr>"
    by (simp add: with_timer_def timer_enter_scoped[OF s])
  with t1 l1 show ?thesis by (simp add: timer_exit_def)
qed

lemma cache_delitem_frame:
  "cache_delitem key c = (r, c') \<Longrightarrow> timer c' = timer c \<and> ttl c' = ttl c"
  by (auto simp: cache_delitem_def split: option.splits)

lemma expire_body_frame:
  "expire_body key c = (r, c') \<Longrightarrow> timer c' = timer c \<and> ttl c' = ttl c"
  by (auto simp: expire_body_def split: prod.splits sum.splits option.splits
      dest!: cache_delitem_frame)

lemma expire_loop_frame:
  "expire_loop time xs c = (r, c') \<Longrightarrow> timer c' = timer c \<and> ttl c' = ttl c"
proof (induction xs arbitrary: c)
  case Nil
  then show ?case by simp
next
  case (Cons x xs)
  obtain key e where x: "x = (key, e)" by (cases x)
  obtain r1 c1 where b: "expire_body key c = (r1, c1)" by (cases "expire_body key c")
  note f1 = expire_body_frame[OF b]
  show ?case
  proof (cases "e \<ge> time \<or> isl r1")
    case True
    with Cons.prems x b f1 show ?thesis by (auto split: sum.splits if_splits)
  next
    case False
    with Cons.prems x b have "expire_loop time xs c1 = (r, c')" by (auto split: sum.splits)
    from Cons.IH[OF this] f1 show ?thesis by simp
  qed
qed

lemma expire_Some_frame:
  "expire (Some time) c = (r, c') \<Longrightarrow> timer c' = timer c \<and> ttl c' = ttl c"
  by (simp add: expire_def expire_loop_frame)

lemma getexpiry_frame:
  "getexpiry key c = (r, c') \<Longrightarrow> timer c' = timer c \<and> ttl c' = ttl c"
  by (auto simp: getexpiry_def split: option.splits)

lemma scoped_cong: "timer c' = timer c \<Longrightarrow> scoped t c' = scoped t c"
  by (simp add: scoped_def)

lemma getitem_frame:
  assumes "getitem key c = (r, c')" and "scoped t c"
  shows "timer c' = timer c \<and> ttl c' = ttl c"
proof -
  obtain r1 c1 where g: "getexpiry key c = (r1, c1)" by (cases "getexpiry key c")
  note f = getexpiry_frame[OF g]
  then have "timer_call (timer c1) = (Inr t, timer c1)"
    using timer_call_scoped[of t c1] assms(2) by (simp add: scoped_def)
  with assms(1) g f show ?thesis
    by (auto simp: getitem_def missing_def split: sum.splits if_splits dest!: cache_getitem_state)
qed

lemma delitem_frame:
  assumes "delitem key c = (r, c')" and "scoped t c"
  shows "timer c' = timer c \<and> ttl c' = ttl c"
proof -
  obtain r1 c1 where g: "cache_delitem key c = (r1, c1)" by (cases "cache_delitem key c")
  note f = cache_delitem_frame[OF g]
  then have "timer_call (timer c1) = (Inr t, timer c1)"
    using timer_call_scoped[of t c1] assms(2) by (simp add: scoped_def)
  with assms(1) g f show ?thesis
    by (auto simp: delitem_def split: sum.splits option.splits if_splits)
qed

lemma cache_pop_frame:
  assumes "cache_pop key c = (r, c')" and "scoped t c"
  shows "timer c' = timer c \<and> ttl c' = ttl c"
proof -
  obtain r1 c1 where g: "getitem key c = (r1, c1)" by (cases "getitem key c")
  note f = getitem_frame[OF g assms(2)]
  then have s1: "scoped t c1" using assms(2) by (simp add: scoped_def)
  obtain r2 c2 where d: "delitem key c1 = (r2, c2)" by (cases "delitem key c1")
  note f2 = delitem_frame[OF d s1]
  from assms(1) g d f f2 show ?thesis
    by (auto simp: cache_pop_def split: sum.splits)
qed

lemma pop_frame:
  assumes "pop key c = (r, c')" and "scoped t c"
  shows "timer c' = timer c \<and> ttl c' = ttl c"
  using assms(1)[unfolded pop_def] assms(2)
  by (rule with_timer_frame) (rule cache_pop_frame)

lemma popitem_body_frame:
  assumes "popitem_body t c = (r, c')" and "scoped t c"
  shows "timer c' = timer c \<and> ttl c' = ttl c"
proof -
  obtain r1 c1 where e: "expire (Some t) c = (r1, c1)" by (cases "expire (Some t) c")
  note f = expire_Some_frame[OF e]
  then have s1: "scoped t c1" using assms(2) by (simp add: scoped_def)
  show ?thesis
  proof (cases "isl r1 \<or> order c1 = []")
    case True
    with assms(1) e f show ?thesis
      by (auto simp: popitem_body_def split: sum.splits list.splits)
  next
    case False
    then obtain key ks where o: "order c1 = key # ks" by (cases "order c1") auto
    obtain r2 c2 where p: "pop key c1 = (r2, c2)" by (cases "pop key c1")
    note f2 = pop_frame[OF p s1]
    from assms(1) e False o p f f2 show ?thesis
      by (auto simp: popitem_body_def split: sum.splits)
  qed
qed

lemma popitem_frame:
  assumes "popitem c = (r, c')" and "scoped t c"
  shows "timer c' = timer c \<and> ttl c' = ttl c"
  using assms(1)[unfolded popitem_def] assms(2)
  by (rule with_timer_frame) (rule popitem_body_frame)

lemma evict_loop_frame:
  "evict_loop sz c = (r, c') \<Longrightarrow> scoped t c \<Longrightarrow> timer c' = timer c \<and> ttl c' = ttl c"
proof (induction sz c rule: evict_loop.induct)
  case (1 sz c)
  show ?case
  proof (cases "currsize c + sz > maxsize c")
    case False
    with "1.prems" show ?thesis by (simp add: evict_loop.simps[of sz c])
  next
    case True
    obtain r1 c1 where p: "popitem c = (r1, c1)" by (cases "popitem c")
    note f1 = popitem_frame[OF p "1.prems"(2)]
    then have s1: "scoped t c1" using "1.prems"(2) by (simp add: scoped_def)
    show ?thesis
    proof (cases r1)
      case (Inl e)
      with "1.prems" True p f1 show ?thesis by (simp add: evict_loop.simps[of sz c])
    next
      case (Inr kv)
      with "1.prems" True p have "evict_loop sz c1 = (r, c')" by (simp add: evict_loop.simps[of sz c])
      from "1.IH"[OF True p[symmetric] Inr this s1] f1 show ?thesis by simp
    qed
  qed
qed

lemma cache_setitem_frame:
  assumes "cache_setitem key v c = (r, c')" and "scoped t c"
  shows "timer c' = timer c \<and> ttl c' = ttl c"
  using assms(1)
proof (cases rule: cache_setitem_cases)
  case too_large
  then show ?thesis by simp
next
  case (evict_failed e)
  then show ?thesis using assms(2) by (blast dest: evict_loop_frame)
next
  case (stored c1 n)
  then have "timer c1 = timer c \<and> ttl c1 = ttl c" using assms(2) by (blast dest: evict_loop_frame)
  with stored(3) show ?thesis by simp
qed

subsection \<open>The purge\<close>







subsection \<open>popitem\<close>

lemma filter_filter_neq: "filter (\<lambda>k. k \<noteq> key) (filter (\<lambda>k. k \<noteq> key) ks @ [key]) = filter (\<lambda>k. k \<noteq> key) ks"
  by (induction ks) auto







lemma with_timer_outer:
  assumes "t_nesting (timer c) = 0" and "t_timer (timer c) (t_clock (timer c)) = (now, w)"
  shows "with_timer body c =
     (case body now (c\<lparr>timer := (timer c)\<lparr>t_clock := w, t_time := Some now, t_nesting := 1\<rparr>\<rparr>) of
        (r, c') \<Rightarrow> (r, c'\<lparr>timer := timer_exit (timer c')\<rparr>))"
  using assms by (simp add: with_timer_def timer_enter_def)




subsection \<open>What the operations keep of the two indexes\<close>

lemma thins_refl [simp]: "thins xs xs"
  unfolding thins_def by (rule exI[of _ "\<lambda>x. True"]) simp

lemma thins_filter [simp]: "thins (filter P xs) xs"
  unfolding thins_def by blast

lemma thins_trans: "thins zs ys \<Longrightarrow> thins ys xs \<Longrightarrow> thins zs xs"
  unfolding thins_def by (metis filter_filter)

lemma thins_sorted: "thins ys xs \<Longrightarrow> sorted (map f xs) \<Longrightarrow> sorted (map f ys)"
  unfolding thins_def by (auto intro: sorted_filter)

lemma thins_subset: "thins ys xs \<Longrightarrow> set ys \<subseteq> set xs"
  unfolding thins_def by auto

lemma thins_distinct: "thins ys xs \<Longrightarrow> distinct (map f xs) \<Longrightarrow> distinct (map f ys)"
  unfolding thins_def by (auto intro: distinct_map_filter)

lemma with_timer_cases:
  assumes "with_timer body c = (r, c')"
  obtains (enter_failed) e tm where "r = Inl e" "c' = c\<lparr>timer := tm\<rparr>"
    | (entered) time tm c1 where "body time (c\<lparr>timer := tm\<rparr>) = (r, c1)"
        "c' = c1\<lparr>timer := timer_exit (timer c1)\<rparr>"
proof (cases "timer_enter (timer c)")
  case (Pair r0 tm)
  show ?thesis
  proof (cases r0)
    case (Inl e)
    with Pair assms have "r = Inl e" "c' = c\<lparr>timer := tm\<rparr>" by (auto simp: with_timer_def)
    then show ?thesis by (rule enter_failed)
  next
    case (Inr time)
    obtain r1 c1 where b: "body time (c\<lparr>timer := tm\<rparr>) = (r1, c1)"
      by (cases "body time (c\<lparr>timer := tm\<rparr>)")
    with Pair Inr assms have "r = r1" "c' = c1\<lparr>timer := timer_exit (timer c1)\<rparr>"
      by (auto simp: with_timer_def)
    with b entered show ?thesis by blast
  qed
qed

lemma expire_body_thins:
  "expire_body key c = (r, c') \<Longrightarrow> thins (expiry_info c') (expiry_info c) \<and> thins (order c') (order c)"
  by (auto simp: expire_body_def split: prod.splits sum.splits option.splits
      dest!: cache_delitem_order od_del_Some keys_del_Some)

lemma expire_loop_thins:
  "expire_loop time xs c = (r, c') \<Longrightarrow> thins (expiry_info c') (expiry_info c) \<and> thins (order c') (order c)"
proof (induction xs arbitrary: c)
  case Nil
  then show ?case by simp
next
  case (Cons x xs)
  obtain key e where x: "x = (key, e)" by (cases x)
  obtain r1 c1 where b: "expire_body key c = (r1, c1)" by (cases "expire_body key c")
  note f1 = expire_body_thins[OF b]
  show ?case
  proof (cases "e \<ge> time \<or> isl r1")
    case True
    with Cons.prems x b f1 show ?thesis by (auto split: sum.splits if_splits)
  next
    case False
    with Cons.prems x b have "expire_loop time xs c1 = (r, c')" by (auto split: sum.splits)
    from Cons.IH[OF this] f1 show ?thesis by (blast intro: thins_trans)
  qed
qed

lemma expire_Some_thins:
  "expire (Some time) c = (r, c') \<Longrightarrow> thins (expiry_info c') (expiry_info c) \<and> thins (order c') (order c)"
  by (simp add: expire_def expire_loop_thins)

lemma getitem_expiry: "getitem key c = (r, c') \<Longrightarrow> expiry_info c' = expiry_info c"
  by (drule getitem_state) (auto simp: getexpiry_def split: option.splits)

lemma getitem_order:
  "getitem key c = (r, c') \<Longrightarrow>
     order c' = order c \<or> order c' = filter (\<lambda>k. k \<noteq> key) (order c) @ [key]"
  by (drule getitem_state) (auto simp: getexpiry_def move_to_end_def split: option.splits if_splits)

lemma delitem_expiry: "delitem key c = (r, c') \<Longrightarrow> thins (expiry_info c') (expiry_info c)"
  by (auto simp: delitem_def split: prod.splits sum.splits option.splits if_splits
      dest!: cache_delitem_order)

lemma delitem_order: "delitem key c = (Inr u, c') \<Longrightarrow> order c' = filter (\<lambda>k. k \<noteq> key) (order c)"
  by (auto simp: delitem_def split: prod.splits sum.splits option.splits if_splits
      dest!: cache_delitem_order keys_del_Some)

lemma cache_pop_expiry: "cache_pop key c = (r, c') \<Longrightarrow> thins (expiry_info c') (expiry_info c)"
  by (auto simp: cache_pop_def split: prod.splits sum.splits dest!: getitem_expiry delitem_expiry)

lemma cache_pop_order: "cache_pop key c = (Inr v, c') \<Longrightarrow> order c' = filter (\<lambda>k. k \<noteq> key) (order c)"
  by (auto simp: cache_pop_def filter_filter_neq split: prod.splits sum.splits
      dest!: getitem_order delitem_order)

lemma pop_expiry:
  assumes "pop key c = (r, c')"
  shows "thins (expiry_info c') (expiry_info c)"
  using assms[unfolded pop_def]
  by (cases rule: with_timer_cases) (auto dest: cache_pop_expiry)

lemma pop_order:
  assumes "pop key c = (Inr v, c')"
  shows "order c' = filter (\<lambda>k. k \<noteq> key) (order c)"
  using assms[unfolded pop_def]
  by (cases rule: with_timer_cases) (auto dest: cache_pop_order)

lemma popitem_body_order:
  assumes "popitem_body time c = (Inr kv, c')"
  shows "thins (order c') (order c)"
proof -
  obtain r1 c1 where e: "expire (Some time) c = (r1, c1)" by (cases "expire (Some time) c")
  from expire_Some_thins[OF e] have t1: "thins (order c1) (order c)" by simp
  from assms e obtain key v where "pop key c1 = (Inr v, c')"
    by (auto simp: popitem_body_def split: sum.splits list.splits prod.splits)
  from pop_order[OF this] have "thins (order c') (order c1)" by simp
  then show ?thesis using t1 by (rule thins_trans)
qed

lemma popitem_order:
  assumes "popitem c = (Inr kv, c')"
  shows "thins (order c') (order c)"
  using assms[unfolded popitem_def]
  by (cases rule: with_timer_cases) (auto dest: popitem_body_order)

lemma evict_loop_order:
  "evict_loop sz c = (Inr u, c') \<Longrightarrow> thins (order c') (order c)"
proof (induction sz c rule: evict_loop.induct)
  case (1 sz c)
  show ?case
  proof (cases "currsize c + sz > maxsize c")
    case False
    with "1.prems" show ?thesis by (simp add: evict_loop.simps[of sz c])
  next
    case True
    obtain r1 c1 where p: "popitem c = (r1, c1)" by (cases "popitem c")
    show ?thesis
    proof (cases r1)
      case (Inl e)
      with "1.prems" True p show ?thesis by (simp add: evict_loop.simps[of sz c])
    next
      case (Inr kv)
      with "1.prems" True p have "evict_loop sz c1 = (Inr u, c')" by (simp add: evict_loop.simps[of sz c])
      from "1.IH"[OF True p[symmetric] Inr this] popitem_order[OF p[unfolded Inr]]
      show ?thesis by (rule thins_trans)
    qed
  qed
qed

lemma cache_setitem_order:
  assumes "cache_setitem key v c = (Inr u, c')"
  shows "thins (order c') (order c)"
  using assms
proof (cases rule: cache_setitem_cases)
  case (stored c1 n)
  then have "thins (order c1) (order c)" by (auto dest: evict_loop_order)
  with stored(3) show ?thesis by simp
qed simp_all

lemma setitem_body_order:
  assumes "setitem_body key v time c = (Inr u, c')" and "lockstep c"
  shows "\<exists>P. order c' = filter P (filter (\<lambda>k. k \<noteq> key) (order c)) @ [key]"
  using assms
proof (cases rule: setitem_body_cases)
  case (written c1 c2)
  from expire_Some_thins[OF written(2)] cache_setitem_order[OF written(3)]
  have "thins (order c2) (order c)" by (blast intro: thins_trans)
  then obtain P where "order c2 = filter P (order c)" by (auto simp: thins_def)
  then have "filter (\<lambda>k. k \<noteq> key) (order c2) = filter P (filter (\<lambda>k. k \<noteq> key) (order c))"
    by (simp add: conj_commute)
  with written(6) show ?thesis by (auto simp: set_tail_def)
qed simp

lemma setitem_order:
  assumes "setitem key v c = (Inr u, c')" and "lockstep c"
  shows "\<exists>P. order c' = filter P (filter (\<lambda>k. k \<noteq> key) (order c)) @ [key]"
  using assms(1)[unfolded setitem_def]
proof (cases rule: with_timer_cases)
  case (entered time tm c1)
  from setitem_body_order[OF entered(1)] assms(2) entered(2) show ?thesis by simp
qed simp

subsection \<open>The order of the Expiry Index\<close>

lemma tidy_timer [simp]: "tidy B d (c\<lparr>timer := tm\<rparr>) = tidy B d c"
  by (simp add: tidy_def)

lemma thins_list_all: "thins ys xs \<Longrightarrow> list_all P xs \<Longrightarrow> list_all P ys"
  unfolding thins_def by (auto simp: list_all_iff)

lemma thins_distinct_plain: "thins ys xs \<Longrightarrow> distinct xs \<Longrightarrow> distinct ys"
  unfolding thins_def by auto

lemma tidy_thins:
  assumes "tidy B d c" and "thins (expiry_info c') (expiry_info c)"
    and "thins (order c') (order c)" and "ttl c' = ttl c"
  shows "tidy B d c'"
  using assms
  by (auto simp: tidy_def intro: thins_sorted thins_distinct thins_list_all thins_distinct_plain)

lemma tidy_moved:
  assumes "tidy B d c" and "expiry_info c' = expiry_info c"
    and "order c' = filter (\<lambda>k. k \<noteq> key) (order c) @ [key]" and "ttl c' = ttl c"
  shows "tidy B d c'"
  using assms by (auto simp: tidy_def)

lemma tidy_weaken: "tidy B d c \<Longrightarrow> B \<le> B' \<Longrightarrow> tidy B' d c"
  by (auto simp: tidy_def list_all_iff)

lemma expire_body_tidy:
  assumes "expire_body key c = (r, c')" and "tidy B d c"
  shows "tidy B d c'"
  using assms(2) expire_body_thins[OF assms(1)] expire_body_frame[OF assms(1)]
  by (auto intro: tidy_thins)

lemma expire_loop_tidy:
  assumes "expire_loop time xs c = (r, c')" and "tidy B d c"
  shows "tidy B d c'"
  using assms(2) expire_loop_thins[OF assms(1)] expire_loop_frame[OF assms(1)]
  by (auto intro: tidy_thins)

lemma expire_tidy:
  "expire time_arg c = (r, c') \<Longrightarrow> tidy B d c \<Longrightarrow> tidy B d c'"
  by (auto simp: expire_def split: option.splits prod.splits sum.splits
      dest: expire_loop_tidy)

lemma getexpiry_tidy:
  "getexpiry key c = (r, c') \<Longrightarrow> tidy B d c \<Longrightarrow> tidy B d c'"
  by (cases r) (auto dest!: getexpiry_Inl getexpiry_Inr intro: tidy_moved)

lemma getitem_tidy:
  assumes "getitem key c = (r, c')" and "tidy B d c"
  shows "tidy B d c'"
proof -
  obtain r1 c1 where g: "getexpiry key c = (r1, c1)" by (cases "getexpiry key c")
  have "tidy B d c1" using g assms(2) by (rule getexpiry_tidy)
  with getitem_state[OF assms(1)] g show ?thesis by auto
qed

lemma delitem_shape:
  "delitem key c = (r, c') \<Longrightarrow>
     thins (expiry_info c') (expiry_info c) \<and> thins (order c') (order c) \<and> ttl c' = ttl c"
  by (auto simp: delitem_def split: prod.splits sum.splits option.splits if_splits
      dest!: cache_delitem_Inr cache_delitem_Inl keys_del_Some)

lemma delitem_tidy:
  assumes "delitem key c = (r, c')" and "tidy B d c"
  shows "tidy B d c'"
  using assms(2) delitem_shape[OF assms(1)] by (auto intro: tidy_thins)

lemma cache_pop_tidy:
  "cache_pop key c = (r, c') \<Longrightarrow> tidy B d c \<Longrightarrow> tidy B d c'"
  by (auto simp: cache_pop_def split: prod.splits sum.splits
      dest: getitem_tidy delitem_tidy)

lemma with_timer_tidy:
  assumes "with_timer body c = (r, c')" and "tidy B d c"
    and "\<And>time c0 r1 c1. body time c0 = (r1, c1) \<Longrightarrow> tidy B d c0 \<Longrightarrow> tidy B d c1"
  shows "tidy B d c'"
  using assms(1)
proof (cases rule: with_timer_cases)
  case (enter_failed e tm)
  with assms(2) show ?thesis by simp
next
  case (entered time tm c1)
  from assms(3)[OF entered(1)] assms(2) entered(2) show ?thesis by simp
qed

lemma pop_tidy:
  assumes "pop key c = (r, c')" and "tidy B d c"
  shows "tidy B d c'"
  using assms(1)[unfolded pop_def] assms(2)
  by (rule with_timer_tidy) (rule cache_pop_tidy)

lemma popitem_body_tidy:
  assumes "popitem_body time c0 = (r, c')" and "tidy B d c0"
  shows "tidy B d c'"
proof (cases "expire (Some time) c0")
  case (Pair r1 c1)
  have l1: "tidy B d c1" using Pair assms(2) by (rule expire_tidy)
  show ?thesis
  proof (cases "order c1")
    case Nil
    with Pair assms(1) l1 show ?thesis by (auto simp: popitem_body_def split: sum.splits)
  next
    case (Cons key ks)
    obtain r2 c2 where p: "pop key c1 = (r2, c2)" by (cases "pop key c1")
    have "tidy B d c2" using p l1 by (rule pop_tidy)
    with Pair Cons p assms(1) l1 show ?thesis by (auto simp: popitem_body_def split: sum.splits)
  qed
qed

lemma popitem_tidy:
  assumes "popitem c = (r, c')" and "tidy B d c"
  shows "tidy B d c'"
  using assms(1)[unfolded popitem_def] assms(2)
  by (rule with_timer_tidy) (rule popitem_body_tidy)

lemma evict_loop_tidy:
  "evict_loop sz c = (r, c') \<Longrightarrow> tidy B d c \<Longrightarrow> tidy B d c'"
proof (induction sz c rule: evict_loop.induct)
  case (1 sz c)
  show ?case
  proof (cases "currsize c + sz > maxsize c")
    case False
    with "1.prems" show ?thesis by (simp add: evict_loop.simps[of sz c])
  next
    case True
    obtain r1 c1 where p: "popitem c = (r1, c1)" by (cases "popitem c")
    have l1: "tidy B d c1" using p "1.prems"(2) by (rule popitem_tidy)
    show ?thesis
    proof (cases r1)
      case (Inl e)
      with "1.prems" True p l1 show ?thesis by (simp add: evict_loop.simps[of sz c])
    next
      case (Inr kv)
      with "1.prems" True p have "evict_loop sz c1 = (r, c')" by (simp add: evict_loop.simps[of sz c])
      from "1.IH"[OF True p[symmetric] Inr this l1] show ?thesis .
    qed
  qed
qed

lemma clear_loop_tidy:
  "clear_loop c = (r, c') \<Longrightarrow> tidy B d c \<Longrightarrow> tidy B d c'"
proof (induction c rule: clear_loop.induct)
  case (1 c)
  obtain r1 c1 where p: "popitem c = (r1, c1)" by (cases "popitem c")
  have l1: "tidy B d c1" using p "1.prems"(2) by (rule popitem_tidy)
  show ?case
  proof (cases r1)
    case (Inl e)
    with "1.prems" p l1 show ?thesis by (auto simp: clear_loop.simps[of c] split: if_splits)
  next
    case (Inr kv)
    with "1.prems" p have "clear_loop c1 = (r, c')" by (simp add: clear_loop.simps[of c])
    from "1.IH"[OF p[symmetric] Inr this l1] show ?thesis .
  qed
qed

lemma clear_body_tidy:
  assumes "clear_body time c0 = (r, c')" and "tidy B d c0"
  shows "tidy B d c'"
proof (cases "expire (Some time) c0")
  case (Pair r1 c1)
  have l1: "tidy B d c1" using Pair assms(2) by (rule expire_tidy)
  show ?thesis
  proof (cases r1)
    case (Inl e)
    with Pair assms(1) l1 show ?thesis by (simp add: clear_body_def)
  next
    case (Inr u)
    with Pair assms(1) have "clear_loop c1 = (r, c')" by (simp add: clear_body_def)
    then show ?thesis using l1 by (rule clear_loop_tidy)
  qed
qed

lemma clear_tidy:
  assumes "clear c = (r, c')" and "tidy B d c"
  shows "tidy B d c'"
  using assms(1)[unfolded clear_def] assms(2)
  by (rule with_timer_tidy) (rule clear_body_tidy)

lemma cache_setitem_tidy:
  assumes "cache_setitem key v c = (r, c')" and "tidy B d c"
  shows "tidy B d c'"
  using assms(1)
proof (cases rule: cache_setitem_cases)
  case too_large
  with assms(2) show ?thesis by simp
next
  case (evict_failed e)
  then show ?thesis using assms(2) by (blast dest: evict_loop_tidy)
next
  case (stored c1 n)
  then have "tidy B d c1" using assms(2) by (blast dest: evict_loop_tidy)
  with stored(3) show ?thesis by (simp add: tidy_def)
qed

lemma set_tail_tidy:
  assumes "tidy B d c2" and "B \<le> time + d"
  shows "tidy (time + d) d (set_tail key time c2)"
proof -
  let ?f = "filter (\<lambda>p. fst p \<noteq> key) (expiry_info c2)"
  from assms(1) have dk: "distinct (map fst (expiry_info c2))" and so: "sorted (map snd (expiry_info c2))"
    and la: "list_all (\<lambda>p. snd p \<le> B) (expiry_info c2)" and d: "distinct (order c2)"
    and tt: "ttl c2 = d" by (simp_all add: tidy_def)
  have 1: "distinct (map fst ?f)" using dk by (rule distinct_map_filter)
  have 2: "key \<notin> fst ` set ?f" by (rule key_notin_filter_fst)
  have 3: "sorted (map snd ?f)" using so by (rule sorted_filter)
  have 4: "\<forall>p \<in> set ?f. snd p \<le> time + d" using la assms(2) by (auto simp: list_all_iff)
  have "distinct (map fst (?f @ [(key, time + d)]))" using 1 2 by simp
  moreover have "sorted (map snd (?f @ [(key, time + d)]))" using 3 4 by (simp add: sorted_append)
  moreover have "list_all (\<lambda>p. snd p \<le> time + d) (?f @ [(key, time + d)])"
    using 4 by (simp add: list_all_iff)
  moreover have "distinct (filter (\<lambda>k. k \<noteq> key) (order c2) @ [key])" using d by simp
  ultimately show ?thesis using tt by (simp add: tidy_def set_tail_def)
qed

lemma setitem_body_tidy:
  assumes "setitem_body key v time c0 = (r, c')" and "lockstep c0" and "tidy B d c0"
    and "B \<le> time + d"
  shows "tidy (time + d) d c'"
proof -
  obtain r1 c1 where e: "expire (Some time) c0 = (r1, c1)" by (cases "expire (Some time) c0")
  have t1: "tidy B d c1" using e assms(3) by (rule expire_tidy)
  obtain r2 c2 where s: "cache_setitem key v c1 = (r2, c2)" by (cases "cache_setitem key v c1")
  have t2: "tidy B d c2" using s t1 by (rule cache_setitem_tidy)
  obtain r3 c3 where g: "getexpiry key c2 = (r3, c3)" by (cases "getexpiry key c2")
  have t3: "tidy B d c3" using g t2 by (rule getexpiry_tidy)
  show ?thesis
  proof (cases r)
    case (Inl err)
    with assms(1) e s g have "c' = c1 \<or> c' = c2 \<or> c' = c3"
      by (auto simp: setitem_body_def Let_def split: sum.splits if_splits option.splits)
    with t1 t2 t3 have "tidy B d c'" by blast
    then show ?thesis using assms(4) by (rule tidy_weaken)
  next
    case (Inr u)
    with assms(1,2) show ?thesis
    proof (cases rule: setitem_body_cases)
      case (written c1' c2')
      with e s have "c2' = c2" by simp
      with written(6) t2 assms(4) show ?thesis by (simp add: set_tail_tidy)
    qed simp
  qed
qed

subsection \<open>Runs at non-decreasing clock readings\<close>

lemma setitem_body_frame:
  assumes "setitem_body key v t c = (r, c')" and "scoped t c"
  shows "timer c' = timer c \<and> ttl c' = ttl c"
proof -
  obtain r1 c1 where e: "expire (Some t) c = (r1, c1)" by (cases "expire (Some t) c")
  note f1 = expire_Some_frame[OF e]
  then have s1: "scoped t c1" using assms(2) by (simp add: scoped_def)
  obtain r2 c2 where s: "cache_setitem key v c1 = (r2, c2)" by (cases "cache_setitem key v c1")
  note f2 = cache_setitem_frame[OF s s1]
  obtain r3 c3 where g: "getexpiry key c2 = (r3, c3)" by (cases "getexpiry key c2")
  note f3 = getexpiry_frame[OF g]
  from assms(1) e s g f1 f2 f3 show ?thesis
    by (auto simp: setitem_body_def Let_def split: sum.splits if_splits option.splits)
qed

lemma clear_loop_frame:
  "clear_loop c = (r, c') \<Longrightarrow> scoped t c \<Longrightarrow> timer c' = timer c \<and> ttl c' = ttl c"
proof (induction c rule: clear_loop.induct)
  case (1 c)
  obtain r1 c1 where p: "popitem c = (r1, c1)" by (cases "popitem c")
  note f1 = popitem_frame[OF p "1.prems"(2)]
  then have s1: "scoped t c1" using "1.prems"(2) by (simp add: scoped_def)
  show ?case
  proof (cases r1)
    case (Inl e)
    with "1.prems" p f1 show ?thesis by (auto simp: clear_loop.simps[of c] split: if_splits)
  next
    case (Inr kv)
    with "1.prems" p have "clear_loop c1 = (r, c')" by (simp add: clear_loop.simps[of c])
    from "1.IH"[OF p[symmetric] Inr this s1] f1 show ?thesis by simp
  qed
qed

lemma clear_body_frame:
  assumes "clear_body t c = (r, c')" and "scoped t c"
  shows "timer c' = timer c \<and> ttl c' = ttl c"
proof -
  obtain r1 c1 where e: "expire (Some t) c = (r1, c1)" by (cases "expire (Some t) c")
  note f1 = expire_Some_frame[OF e]
  then have s1: "scoped t c1" using assms(2) by (simp add: scoped_def)
  show ?thesis
  proof (cases r1)
    case (Inl err)
    with assms(1) e f1 show ?thesis by (simp add: clear_body_def)
  next
    case (Inr u)
    with assms(1) e have "clear_loop c1 = (r, c')" by (simp add: clear_body_def)
    from clear_loop_frame[OF this s1] f1 show ?thesis by simp
  qed
qed

lemma with_timer_idle:
  assumes w: "with_timer body c = (r, c')" and i: "idle c"
    and b: "\<And>t c0 r1 c1. body t c0 = (r1, c1) \<Longrightarrow> scoped t c0 \<Longrightarrow> timer c1 = timer c0 \<and> ttl c1 = ttl c0"
  shows "idle c'"
proof -
  let ?t = "t_clock (timer c)"
  let ?c0 = "c\<lparr>timer := (timer c)\<lparr>t_clock := ?t, t_time := Some ?t, t_nesting := 1\<rparr>\<rparr>"
  from i have n: "t_nesting (timer c) = 0" and m: "t_timer (timer c) (t_clock (timer c)) = (?t, ?t)"
    by (simp_all add: idle_def manual_clock_def)
  obtain r1 c1 where bd: "body ?t ?c0 = (r1, c1)" by (cases "body ?t ?c0")
  have "scoped ?t ?c0" by (simp add: scoped_def)
  from b[OF bd this] have t1: "timer c1 = timer ?c0" by simp
  from w bd have "c' = c1\<lparr>timer := timer_exit (timer c1)\<rparr>"
    by (simp add: with_timer_outer[OF n m])
  with t1 i show ?thesis by (simp add: idle_def timer_exit_def)
qed

lemma timer_call_idle:
  "timer_call s = (r, s') \<Longrightarrow> t_nesting s' = t_nesting s \<and> t_timer s' = t_timer s"
  by (auto simp: timer_call_def split: if_splits prod.splits option.splits)

lemma idle_timer_call:
  "idle c \<Longrightarrow> timer_call (timer c) = (r, tm) \<Longrightarrow> idle (c'\<lparr>timer := tm\<rparr>)"
  by (auto simp: idle_def dest!: timer_call_idle)

lemma getitem_idle:
  assumes "getitem key c = (r, c')" and "idle c"
  shows "idle c'"
proof -
  obtain r1 c1 where g: "getexpiry key c = (r1, c1)" by (cases "getexpiry key c")
  from getexpiry_frame[OF g] assms(2) have i1: "idle c1" by (simp add: idle_def)
  obtain r2 tm where tc: "timer_call (timer c1) = (r2, tm)" by (cases "timer_call (timer c1)")
  from assms(1) g tc have "c' = c1 \<or> c' = c1\<lparr>timer := tm\<rparr>"
    by (auto simp: getitem_def missing_def split: sum.splits if_splits dest!: cache_getitem_state)
  with i1 idle_timer_call[OF i1 tc, of c1] show ?thesis by auto
qed

lemma delitem_idle:
  assumes "delitem key c = (r, c')" and "idle c"
  shows "idle c'"
proof -
  obtain r1 c1 where g: "cache_delitem key c = (r1, c1)" by (cases "cache_delitem key c")
  from cache_delitem_frame[OF g] assms(2) have i1: "idle c1" by (simp add: idle_def)
  obtain r2 tm where tc: "timer_call (timer c1) = (r2, tm)" by (cases "timer_call (timer c1)")
  from timer_call_idle[OF tc] i1 have it: "t_nesting tm = 0 \<and> t_timer tm = manual_clock"
    by (simp add: idle_def)
  from assms(1) g tc have "timer c' = timer c1 \<or> timer c' = tm"
    by (auto simp: delitem_def split: sum.splits if_splits option.splits)
  with i1 it show ?thesis by (auto simp: idle_def)
qed

lemma contains_state: "contains key c = (r, c') \<Longrightarrow> \<exists>tm. c' = c\<lparr>timer := tm\<rparr>"
proof -
  assume a: "contains key c = (r, c')"
  have t: "c = c\<lparr>timer := timer c\<rparr>" by simp
  from a have "c' = c \<or> (\<exists>tm. c' = c\<lparr>timer := tm\<rparr>)"
    by (auto simp: contains_def split: option.splits prod.splits sum.splits)
  then show ?thesis using t by metis
qed

lemma contains_idle:
  assumes "contains key c = (r, c')" and "idle c"
  shows "idle c'"
proof -
  obtain r2 tm where tc: "timer_call (timer c) = (r2, tm)" by (cases "timer_call (timer c)")
  from assms(1) tc have "c' = c \<or> c' = c\<lparr>timer := tm\<rparr>"
    by (auto simp: contains_def split: option.splits sum.splits)
  with assms(2) idle_timer_call[OF assms(2) tc, of c] show ?thesis by auto
qed

lemma expire_idle:
  assumes "expire time_arg c = (r, c')" and "idle c"
  shows "idle c'"
proof (cases time_arg)
  case (Some time)
  with assms(1) have "expire (Some time) c = (r, c')" by simp
  from expire_Some_frame[OF this] assms(2) show ?thesis by (simp add: idle_def)
next
  case None
  obtain r2 tm where tc: "timer_call (timer c) = (r2, tm)" by (cases "timer_call (timer c)")
  note i1 = idle_timer_call[OF assms(2) tc, of c]
  show ?thesis
  proof (cases r2)
    case (Inl e)
    with assms(1) None tc i1 show ?thesis by (auto simp: expire_def)
  next
    case (Inr time)
    with assms(1) None tc have "expire_loop time (expiry_info c) (c\<lparr>timer := tm\<rparr>) = (r, c')"
      by (simp add: expire_def)
    from expire_loop_frame[OF this] i1 show ?thesis by (simp add: idle_def)
  qed
qed

lemma at_time_ready: "ready T d c \<Longrightarrow> ready T d (at_time t c)"
  by (simp add: ready_def at_time_def idle_def)

lemma at_time_clock: "t_clock (timer (at_time t c)) = t"
  by (simp add: at_time_def)

lemma contains_tidy:
  "contains key c = (r, c') \<Longrightarrow> tidy B d c \<Longrightarrow> tidy B d c'"
  by (drule contains_state) auto

lemma contains_lockstep:
  "contains key c = (r, c') \<Longrightarrow> lockstep c \<Longrightarrow> lockstep c'"
  by (drule contains_state) auto

lemma setitem_ready:
  assumes "ready T d c" and "T \<le> t_clock (timer c)" and "setitem key v c = (r, c')"
  shows "ready (t_clock (timer c)) d c'"
proof -
  let ?t = "t_clock (timer c)"
  from assms(1) have l: "lockstep c" and td: "tidy (T + d) d c" and i: "idle c"
    by (simp_all add: ready_def)
  have l': "lockstep c'" using assms(3) l by (rule setitem_lockstep)
  have i': "idle c'" using assms(3)[unfolded setitem_def] i
    by (rule with_timer_idle) (rule setitem_body_frame)
  from i have n: "t_nesting (timer c) = 0" and m: "t_timer (timer c) (t_clock (timer c)) = (?t, ?t)"
    by (simp_all add: idle_def manual_clock_def)
  let ?c0 = "c\<lparr>timer := (timer c)\<lparr>t_clock := ?t, t_time := Some ?t, t_nesting := 1\<rparr>\<rparr>"
  obtain r1 c1 where b: "setitem_body key v ?t ?c0 = (r1, c1)"
    by (cases "setitem_body key v ?t ?c0")
  from assms(3) b have c': "c' = c1\<lparr>timer := timer_exit (timer c1)\<rparr>"
    by (simp add: setitem_def with_timer_outer[OF n m])
  have l0: "lockstep ?c0" using l by simp
  have td0: "tidy (T + d) d ?c0" using td by simp
  have le: "T + d \<le> ?t + d" using assms(2) by simp
  have "tidy (?t + d) d c1" using b l0 td0 le by (rule setitem_body_tidy)
  with c' have "tidy (?t + d) d c'" by simp
  with l' i' show ?thesis by (simp add: ready_def)
qed

lemma perform_ready:
  assumes "ready T d c" and "T \<le> t_clock (timer c)"
  shows "ready (t_clock (timer c)) d (perform x c)"
proof -
  let ?t = "t_clock (timer c)"
  from assms have l: "lockstep c" and td: "tidy (?t + d) d c" and i: "idle c"
    by (auto simp: ready_def intro: tidy_weaken)
  show ?thesis
  proof (cases x)
    case (SetItem key v)
    obtain r c' where s: "setitem key v c = (r, c')" by (cases "setitem key v c")
    from setitem_ready[OF assms s] SetItem s show ?thesis by simp
  next
    case (GetItem key)
    obtain r c' where s: "getitem key c = (r, c')" by (cases "getitem key c")
    from getitem_lockstep[OF s l] getitem_tidy[OF s td] getitem_idle[OF s i] GetItem s
    show ?thesis by (simp add: ready_def)
  next
    case (DelItem key)
    obtain r c' where s: "delitem key c = (r, c')" by (cases "delitem key c")
    from delitem_lockstep[OF s l] delitem_tidy[OF s td] delitem_idle[OF s i] DelItem s
    show ?thesis by (simp add: ready_def)
  next
    case (Contains key)
    obtain r c' where s: "contains key c = (r, c')" by (cases "contains key c")
    from contains_lockstep[OF s l] contains_tidy[OF s td] contains_idle[OF s i] Contains s
    show ?thesis by (simp add: ready_def)
  next
    case (Expire time_arg)
    obtain r c' where s: "expire time_arg c = (r, c')" by (cases "expire time_arg c")
    from expire_lockstep[OF s l] expire_tidy[OF s td] expire_idle[OF s i] Expire s
    show ?thesis by (simp add: ready_def)
  next
    case PopItem
    obtain r c' where s: "popitem c = (r, c')" by (cases "popitem c")
    have "idle c'" using s[unfolded popitem_def] i
      by (rule with_timer_idle) (rule popitem_body_frame)
    with popitem_lockstep[OF s l] popitem_tidy[OF s td] PopItem s
    show ?thesis by (simp add: ready_def)
  next
    case (Pop key)
    obtain r c' where s: "pop key c = (r, c')" by (cases "pop key c")
    have "idle c'" using s[unfolded pop_def] i
      by (rule with_timer_idle) (rule cache_pop_frame)
    with pop_lockstep[OF s l] pop_tidy[OF s td] Pop s
    show ?thesis by (simp add: ready_def)
  next
    case Clear
    obtain r c' where s: "clear c = (r, c')" by (cases "clear c")
    have "idle c'" using s[unfolded clear_def] i
      by (rule with_timer_idle) (rule clear_body_frame)
    with clear_lockstep[OF s l] clear_tidy[OF s td] Clear s
    show ?thesis by (simp add: ready_def)
  qed
qed

lemma run_ready:
  "ready T d c \<Longrightarrow> sorted (T # map fst calls) \<Longrightarrow> \<exists>T'. ready T' d (run calls c)"
proof (induction calls arbitrary: T c)
  case Nil
  then show ?case by auto
next
  case (Cons a calls)
  obtain t x where a: "a = (t, x)" by (cases a)
  from Cons.prems(2) a have le: "T \<le> t" and so: "sorted (t # map fst calls)" by simp_all
  have "ready T d (at_time t c)" using Cons.prems(1) by (rule at_time_ready)
  from perform_ready[OF this, of x] le
  have "ready t d (perform x (at_time t c))" by (simp add: at_time_clock)
  from Cons.IH[OF this so] a show ?case by simp
qed

lemma init_ready: "ready T d (init m d manual_clock w sz)"
  by (simp add: ready_def lockstep_def tidy_def idle_def init_def timer_init_def)

lemma lockstep_init: "lockstep (init m d f w sz)"
  by (simp add: lockstep_def init_def)

lemma reachable_ready:
  assumes "sorted (map fst calls)"
  shows "\<exists>T. ready T d (run calls (init m d manual_clock w sz))"
proof (cases calls)
  case Nil
  then show ?thesis using init_ready[of 0 d m w sz] by auto
next
  case (Cons a rest)
  then have "sorted (fst a # map fst calls)" using assms by simp
  from run_ready[OF init_ready this] show ?thesis .
qed

subsection \<open>More concrete runs\<close>



lemma spare_eq:
  "spare =
     \<lparr>data = [''a'' \<mapsto> (1, 1), ''b'' \<mapsto> (2, 1)], currsize = 2, maxsize = 3,
      getsizeof = (\<lambda>v. 1), expiry_info = [(''a'', 10), (''b'', 11)], order = [''a'', ''b''],
      timer = \<lparr>t_timer = manual_clock, t_clock = 1, t_nesting = 0, t_time = Some 1\<rparr>,
      ttl = 10\<rparr>"
  by (simp add: spare_def run_defs)

lemma lockstep_spare: "lockstep (at_time t spare)"
  by (auto simp: spare_eq lockstep_def at_time_def)

subsection \<open>The purge on reachable states\<close>




subsection \<open>popitem on reachable states\<close>




subsection \<open>The order of the Expiry Index under sets\<close>

text \<open>
  Claim C7. After any sequence of \<open>__setitem__\<close> calls from the empty cache at
  non-decreasing clock readings, with the one time-to-live of the cache, the expiry times
  of the Expiry Index are in non-decreasing order along its iteration order, and every key
  has one entry: an overwrite removes the old entry and appends the new one.
\<close>

theorem expiry_monotone_under_sets:
  assumes "sorted (map fst sets)"
  shows "sorted (map snd (expiry_info
           (run (map (\<lambda>(t, key, v). (t, SetItem key v)) sets) (init m d manual_clock w sz))))
       \<and> distinct (map fst (expiry_info
           (run (map (\<lambda>(t, key, v). (t, SetItem key v)) sets) (init m d manual_clock w sz))))"
proof -
  have "map fst (map (\<lambda>(t, key, v). (t, SetItem key v)) sets) = map fst sets"
    by (induction sets) auto
  with assms have "sorted (map fst (map (\<lambda>(t, key, v). (t, SetItem key v)) sets))"
    by (simp only:)
  from reachable_ready[OF this, of d m w sz] show ?thesis
    by (auto simp: ready_def tidy_def)
qed

theorem expiry_monotone_under_sets_witness:
  "sorted (map fst [(0 :: int, ''a'', 1 :: int), (1, ''b'', 2), (1, ''a'', 5)])
   \<and> expiry_info (run (map (\<lambda>(t, key, v). (t, SetItem key v))
                          [(0, ''a'', 1), (1, ''b'', 2), (1, ''a'', 5)])
                     (init 2 10 manual_clock 0 (\<lambda>v. 1)))
       = [(''b'', 11), (''a'', 11)]
   \<and> sorted (map snd [(''b'', 11 :: int), (''a'', 11)])"
  using expiry_monotone_under_sets [of "[(0, ''a'', 1), (1, ''b'', 2), (1, ''a'', 5)]" 2 10 0 "\<lambda>v. 1"]
  by (simp add: run_defs)

subsection \<open>Overwriting a key\<close>

text \<open>
  An overwrite does move the key: \<open>__setitem__\<close> calls \<open>__getexpiry\<close>, which moves the
  key to the end of \<open>__order\<close>. With \<open>a\<close> before \<open>b\<close> in the Access Order Index, both
  alive and with room to spare, setting \<open>a\<close> again leaves \<open>b\<close> before \<open>a\<close>.
\<close>

theorem overwrite_moves_key_counterexample:
  "od_get ''a'' (expiry_info (at_time 2 spare)) = Some 10
   \<and> order (at_time 2 spare) = [''a'', ''b'']
   \<and> fst (setitem ''a'' 5 (at_time 2 spare)) = Inr ()
   \<and> order (snd (setitem ''a'' 5 (at_time 2 spare))) = [''b'', ''a'']"
  by (simp add: spare_eq run_defs)

text \<open>
  Claim C1, amended. From a state whose three key sets are identical, a \<open>__setitem__\<close>
  that returns leaves the key at the most recently used end of the Access Order Index,
  whether the key was present or not; the other keys that remain keep their order
  relative to each other.
\<close>

theorem set_moves_key_to_mru_end:
  assumes "lockstep c" and "setitem key v c = (Inr (), c')"
  shows "\<exists>P. order c' = filter P (filter (\<lambda>k. k \<noteq> key) (order c)) @ [key]"
  using assms(2,1) by (rule setitem_order)

theorem set_moves_key_to_mru_end_witness:
  "lockstep (at_time 2 spare)
   \<and> setitem ''a'' 5 (at_time 2 spare) = (Inr (), snd (setitem ''a'' 5 (at_time 2 spare)))
   \<and> order (snd (setitem ''a'' 5 (at_time 2 spare)))
       = filter (\<lambda>k. True) (filter (\<lambda>k. k \<noteq> ''a'') (order (at_time 2 spare))) @ [''a'']"
proof -
  have s: "setitem ''a'' 5 (at_time 2 spare) = (Inr (), snd (setitem ''a'' 5 (at_time 2 spare)))"
    by (simp add: spare_eq run_defs)
  from set_moves_key_to_mru_end [OF lockstep_spare [of 2] s]
  have "last (order (snd (setitem ''a'' 5 (at_time 2 spare)))) = ''a''" by auto
  with s lockstep_spare [of 2] show ?thesis by (simp add: spare_eq run_defs)
qed

subsection \<open>Eviction of the least recently used key\<close>

text \<open>
  Claim C6. With \<open>maxsize\<close> 2 and \<open>ttl\<close> 10: after \<open>a\<close> is set at 0 and \<open>b\<close> at 1, reading
  \<open>a\<close> at 2 returns its value and moves \<open>a\<close> behind \<open>b\<close> in the Access Order Index, so
  that \<open>popitem\<close> would return \<open>b\<close>; setting \<open>c\<close> at 3 returns, evicts \<open>b\<close> and leaves
  the store holding exactly \<open>a\<close> and \<open>c\<close>.
\<close>

theorem lru_eviction_scenario:
  "maxsize fresh = 2 \<and> ttl fresh = 10
   \<and> fst (getitem ''a'' (at_time 2 two_entries)) = Inr 1
   \<and> order (snd (getitem ''a'' (at_time 2 two_entries))) = [''b'', ''a'']
   \<and> fst (popitem (at_time 3 (snd (getitem ''a'' (at_time 2 two_entries))))) = Inr (''b'', 2)
   \<and> fst (setitem ''c'' 3 (at_time 3 (snd (getitem ''a'' (at_time 2 two_entries))))) = Inr ()
   \<and> lru_scenario = snd (setitem ''c'' 3 (at_time 3 (snd (getitem ''a'' (at_time 2 two_entries)))))
   \<and> dom (data lru_scenario) = {''a'', ''c''}
   \<and> data lru_scenario ''b'' = None
   \<and> order lru_scenario = [''a'', ''c'']
   \<and> expiry_info lru_scenario = [(''a'', 10), (''c'', 13)]"
  by (simp add: lru_scenario_def two_entries_def run_defs insert_commute)

subsection \<open>Liveness at the boundary\<close>

lemma od_get_od_set: "od_get key (od_set key v xs) = Some v"
proof (cases "key \<in> fst ` set xs")
  case True
  then have "map_of (map (\<lambda>p. if fst p = key then (key, v) else p) xs) key = Some v"
    by (induction xs) auto
  with True show ?thesis by (simp add: od_get_def od_set_def)
next
  case False
  then have "map_of xs key = None" by (simp add: map_of_eq_None_iff)
  with False show ?thesis by (simp add: od_get_def od_set_def map_add_def)
qed

lemma setitem_body_records:
  assumes "setitem_body key v t c = (Inr u, c')" and "scoped t c"
  shows "od_get key (expiry_info c') = Some (t + ttl c) \<and> key \<in> set (order c')"
proof -
  obtain r1 c1 where e: "expire (Some t) c = (r1, c1)" by (cases "expire (Some t) c")
  note f1 = expire_Some_frame[OF e]
  then have s1: "scoped t c1" using assms(2) by (simp add: scoped_def)
  obtain r2 c2 where s: "cache_setitem key v c1 = (r2, c2)" by (cases "cache_setitem key v c1")
  note f2 = cache_setitem_frame[OF s s1]
  obtain r3 c3 where g: "getexpiry key c2 = (r3, c3)" by (cases "getexpiry key c2")
  note f3 = getexpiry_frame[OF g]
  have tt: "ttl c3 = ttl c" using f1 f2 f3 by simp
  show ?thesis
  proof (cases r3)
    case (Inl err)
    with assms(1) e s g have
      "c' = c3\<lparr>order := keys_set key (order c3),
              expiry_info := od_set key (t + ttl c3) (expiry_info c3)\<rparr>"
      by (auto simp: setitem_body_def Let_def split: sum.splits if_splits)
    then show ?thesis using tt by (simp add: od_get_od_set keys_set_set)
  next
    case (Inr old)
    from getexpiry_Inr[OF g[unfolded Inr]] have k: "key \<in> set (order c3)" by auto
    from assms(1) e s g Inr obtain ei where
      "c' = c3\<lparr>expiry_info := od_set key (t + ttl c3) ei\<rparr>"
      by (auto simp: setitem_body_def Let_def split: sum.splits if_splits option.splits)
    then show ?thesis using tt k by (simp add: od_get_od_set)
  qed
qed

lemma setitem_records:
  assumes "t_nesting (timer c) = 0" and "t_timer (timer c) (t_clock (timer c)) = (t, w)"
    and "setitem key v c = (Inr u, c1)"
  shows "od_get key (expiry_info c1) = Some (t + ttl c) \<and> key \<in> set (order c1)"
proof -
  let ?c0 = "c\<lparr>timer := (timer c)\<lparr>t_clock := w, t_time := Some t, t_nesting := 1\<rparr>\<rparr>"
  obtain r1 cb where b: "setitem_body key v t ?c0 = (r1, cb)" by (cases "setitem_body key v t ?c0")
  from assms(3) b have r: "r1 = Inr u" and c1: "c1 = cb\<lparr>timer := timer_exit (timer cb)\<rparr>"
    by (simp_all add: setitem_def with_timer_outer[OF assms(1,2)])
  have "scoped t ?c0" by (simp add: scoped_def)
  from setitem_body_records[OF b[unfolded r] this] c1 show ?thesis by simp
qed

text \<open>
  Claim C5. A key set by a \<open>__setitem__\<close> that returns, called outside any scope when the
  clock reads \<open>t\<close>, has the recorded expiry time \<open>t + ttl\<close>. When the timer later reports
  exactly \<open>t + ttl\<close>, \<open>__contains__\<close> returns true; when it reports anything greater,
  \<open>__contains__\<close> returns false and \<open>__getitem__\<close> raises \<open>KeyError\<close> through
  \<open>__missing__\<close>.
\<close>

theorem boundary_liveness:
  assumes "t_nesting (timer c) = 0" and "t_timer (timer c) (t_clock (timer c)) = (t, w)"
    and "setitem key v c = (Inr (), c1)"
    and "timer_call tm = (Inr now, tm')"
  shows "(now = t + ttl c \<longrightarrow> fst (contains key (c1\<lparr>timer := tm\<rparr>)) = Inr True)
       \<and> (t + ttl c < now \<longrightarrow>
            fst (contains key (c1\<lparr>timer := tm\<rparr>)) = Inr False
            \<and> fst (getitem key (c1\<lparr>timer := tm\<rparr>)) = Inl KeyError)"
proof -
  from setitem_records[OF assms(1,2,3)]
  have g: "od_get key (expiry_info c1) = Some (t + ttl c)" and k: "key \<in> set (order c1)"
    by simp_all
  have c: "fst (contains key (c1\<lparr>timer := tm\<rparr>)) = Inr (now \<le> t + ttl c)"
    using g assms(4) by (simp add: contains_def)
  have "t + ttl c < now \<Longrightarrow> fst (getitem key (c1\<lparr>timer := tm\<rparr>)) = Inl KeyError"
    using g k assms(4) by (simp add: getitem_def getexpiry_def move_to_end_def missing_def)
  with c show ?thesis by auto
qed

theorem boundary_liveness_witness:
  "t_nesting (timer (at_time 0 fresh)) = 0
   \<and> t_timer (timer (at_time 0 fresh)) (t_clock (timer (at_time 0 fresh))) = (0, 0)
   \<and> fst (setitem ''x'' 1 (at_time 0 fresh)) = Inr ()
   \<and> ttl (at_time 0 fresh) = 10
   \<and> timer_call (timer (at_time 10 (snd (setitem ''x'' 1 (at_time 0 fresh)))))
       = (Inr 10, timer (at_time 10 (snd (setitem ''x'' 1 (at_time 0 fresh)))))
   \<and> fst (contains ''x'' (at_time 10 (snd (setitem ''x'' 1 (at_time 0 fresh))))) = Inr True
   \<and> timer_call (timer (at_time 11 (snd (setitem ''x'' 1 (at_time 0 fresh)))))
       = (Inr 11, timer (at_time 11 (snd (setitem ''x'' 1 (at_time 0 fresh)))))
   \<and> fst (contains ''x'' (at_time 11 (snd (setitem ''x'' 1 (at_time 0 fresh))))) = Inr False
   \<and> fst (getitem ''x'' (at_time 11 (snd (setitem ''x'' 1 (at_time 0 fresh))))) = Inl KeyError"
proof -
  have s: "setitem ''x'' 1 (at_time 0 fresh) = (Inr (), snd (setitem ''x'' 1 (at_time 0 fresh)))"
    by (simp add: run_defs)
  have n: "t_nesting (timer (at_time 0 fresh)) = 0"
    and m: "t_timer (timer (at_time 0 fresh)) (t_clock (timer (at_time 0 fresh))) = (0, 0)"
    by (simp_all add: run_defs)
  have t10: "timer_call (timer (at_time 10 (snd (setitem ''x'' 1 (at_time 0 fresh)))))
       = (Inr 10, timer (at_time 10 (snd (setitem ''x'' 1 (at_time 0 fresh)))))"
    by (simp add: run_defs)
  have t11: "timer_call (timer (at_time 11 (snd (setitem ''x'' 1 (at_time 0 fresh)))))
       = (Inr 11, timer (at_time 11 (snd (setitem ''x'' 1 (at_time 0 fresh)))))"
    by (simp add: run_defs)
  show ?thesis
    using boundary_liveness [OF n m s t10] boundary_liveness [OF n m s t11] n m s t10 t11
    by (simp add: run_defs)
qed

end
